theory Spec2Isabelle
  imports Complex_Main
begin

section \<open>Strings\<close>

text \<open>
  A Python \<^verbatim>\<open>str\<close> is a sequence of Unicode code points.  A code point is a natural
  number here, so that the whitespace class of \<^verbatim>\<open>str.strip()\<close> and of the regular
  expression \<^verbatim>\<open>\s\<close> (which reaches beyond ASCII) is the one Python uses.  \<open>ustr\<close> turns
  an ASCII literal into such a sequence.
\<close>

type_synonym pystr = "nat list"

definition ustr :: "string \<Rightarrow> pystr" where
  "ustr cs = map of_char cs"

text \<open>
  \<^verbatim>\<open>str.isspace\<close>, \<^verbatim>\<open>str.strip()\<close> and \<^verbatim>\<open>\s\<close> on \<^verbatim>\<open>str\<close> patterns share one table
  (CPython's \<^verbatim>\<open>_PyUnicode_IsWhitespace\<close>).
\<close>

definition is_space :: "nat \<Rightarrow> bool" where
  "is_space c =
     ((9 \<le> c \<and> c \<le> 13) \<or> (28 \<le> c \<and> c \<le> 32) \<or> c = 133 \<or> c = 160 \<or> c = 5760
      \<or> (8192 \<le> c \<and> c \<le> 8202) \<or> c = 8232 \<or> c = 8233 \<or> c = 8239 \<or> c = 8287
      \<or> c = 12288)"

definition strip :: "pystr \<Rightarrow> pystr" where
  "strip s = rev (dropWhile is_space (rev (dropWhile is_space s)))"

definition startswith :: "pystr \<Rightarrow> pystr \<Rightarrow> bool" where
  "startswith s p = (take (length p) s = p)"

definition endswith :: "pystr \<Rightarrow> pystr \<Rightarrow> bool" where
  "endswith s p = (length p \<le> length s \<and> drop (length s - length p) s = p)"

text \<open>\<^verbatim>\<open>sub in s\<close> on strings.\<close>

fun contains :: "pystr \<Rightarrow> pystr \<Rightarrow> bool" where
  "contains sub [] = (sub = [])"
| "contains sub (c # cs) = (startswith (c # cs) sub \<or> contains sub cs)"

text \<open>\<^verbatim>\<open>str(n)\<close> for a non-negative integer.\<close>

function decimal :: "nat \<Rightarrow> pystr" where
  "decimal n = (if n < 10 then [48 + n] else decimal (n div 10) @ [48 + n mod 10])"
  by pat_completeness auto
termination
  by (relation "measure (\<lambda>n. n)") auto

declare decimal.simps [simp del]

section \<open>Alignment records\<close>

text \<open>
  One element of the alignment result.  The code reads it with \<^verbatim>\<open>.get("word")\<close>,
  \<^verbatim>\<open>.get("start", 0)\<close> and \<^verbatim>\<open>.get("end", 0)\<close>, so each field may be absent.  A present
  \<^verbatim>\<open>word\<close> is a string and a present time is a finite float (the float seconds the
  spec gives a timed word), which \<^verbatim>\<open>float\<close> returns as it is; a finite float is a
  rational number.  An element that is not a mapping has no \<^verbatim>\<open>.get\<close>: reading it
  raises.
\<close>

record word_rec =
  w_word :: "pystr option"
  w_start :: "rat option"
  w_end :: "rat option"

datatype item = Mapping word_rec | NotMapping

datatype exn = AttributeError | OSError

text \<open>\<^verbatim>\<open>word_data.get("word", "")\<close>\<close>

definition word_text :: "word_rec \<Rightarrow> pystr" where
  "word_text r = (case w_word r of None \<Rightarrow> [] | Some s \<Rightarrow> s)"

text \<open>\<^verbatim>\<open>float(d.get(key, 0))\<close>\<close>

definition float_or_0 :: "rat option \<Rightarrow> rat" where
  "float_or_0 v = (case v of None \<Rightarrow> 0 | Some t \<Rightarrow> t)"

record sentence =
  filename :: pystr
  filepath :: pystr
  transcript :: pystr
  start_time :: rat
  end_time :: rat

section \<open>The world outside the program\<close>

datatype tool_outcome = Exit int | ToolRaises

text \<open>
  A value that may stand where the alignment result is expected: a list, or something else,
  with or without a \<^verbatim>\<open>len\<close>.  The service's answer is a mapping (with or without the
  key \<^verbatim>\<open>wordstamps\<close>), a list, or anything else.
\<close>

datatype alignment = AList "item list" | NonListSized | NonListUnsized

datatype api_response = RespDict "alignment option" | RespList "item list" | RespOther

datatype failure =
  NoTranscript | ReadFailed | ServiceFailed | FormatRejected | LenFailed | WriteFailed

datatype write_outcome = WriteOk | OpenFails | DumpFails

datatype event =
    EvApiCall pystr pystr
  | EvWriteAlignment pystr
  | EvTool pystr pystr rat rat
  | EvCsvAppend "(pystr \<times> pystr) list"

text \<open>
  What the program cannot decide itself is a parameter: the Unicode table behind \<^verbatim>\<open>\w\<close>,
  the lower-case mapping of \<^verbatim>\<open>str.lower()\<close> beyond ASCII,
  the content of a transcript file (\<open>None\<close>: reading raises), the alignment service
  (\<open>None\<close>: the call raises), the outcome of writing the alignment file, the exit status
  of the audio tool for a given command line, and the outcome of appending to the manifest:
  whether the append goes through and, when it does not, how many rows it has written
  before it fails (none when the manifest cannot be opened).
\<close>

record env =
  audio_output_dir :: pystr
  isalnum :: "nat \<Rightarrow> bool"
  lower_other :: "nat \<Rightarrow> pystr"
  read_text :: "pystr \<Rightarrow> pystr option"
  replicate_run :: "pystr \<Rightarrow> pystr \<Rightarrow> api_response option"
  dump_json :: "pystr \<Rightarrow> write_outcome"
  ffmpeg :: "pystr \<Rightarrow> pystr \<Rightarrow> rat \<Rightarrow> rat \<Rightarrow> tool_outcome"
  csv_append_ok :: bool
  csv_rows_written :: nat

text \<open>
  The state the program changes: the paths that exist, the rows of the manifest after its
  header, and the effects in the order they happened.
\<close>

record world =
  files :: "pystr set"
  manifest :: "(pystr \<times> pystr) list"
  trace :: "event list"

section \<open>Paths (posixpath)\<close>

definition path_join :: "pystr \<Rightarrow> pystr \<Rightarrow> pystr" where
  "path_join a b =
     (if startswith b (ustr ''/'') then b
      else if a = [] \<or> endswith a (ustr ''/'') then a @ b
      else a @ ustr ''/'' @ b)"

definition basename :: "pystr \<Rightarrow> pystr" where
  "basename p = rev (takeWhile (\<lambda>c. c \<noteq> 47) (rev p))"

definition dirname :: "pystr \<Rightarrow> pystr" where
  "dirname p =
     (let head = rev (dropWhile (\<lambda>c. c \<noteq> 47) (rev p))
      in if head \<noteq> [] \<and> \<not> list_all (\<lambda>c. c = 47) head
         then rev (dropWhile (\<lambda>c. c = 47) (rev head))
         else head)"

section \<open>Sentence extraction\<close>

text \<open>
  The scan for the suffix \<^verbatim>\<open>Generalitat de Catalunya\<close>.  The loop over
  \<^verbatim>\<open>enumerate(alignment_result)\<close> is a recursion over the remaining elements with the
  index \<open>i\<close> of their first; \<^verbatim>\<open>i+2 < len(alignment_result)\<close> holds exactly when two
  elements follow the current one, and they are \<^verbatim>\<open>alignment_result[i+1]\<close> and
  \<^verbatim>\<open>alignment_result[i+2]\<close>.  The conjunction is evaluated left to right, so the third
  element is read only when the second one matched.
\<close>

fun find_generalitat :: "item list \<Rightarrow> nat \<Rightarrow> exn + nat option" where
  "find_generalitat [] i = Inr None"
| "find_generalitat (NotMapping # rest) i = Inl AttributeError"
| "find_generalitat (Mapping r # rest) i =
     (if w_word r = Some (ustr ''Generalitat'') then
        (case rest of
           x1 # x2 # _ \<Rightarrow>
             (case x1 of
                NotMapping \<Rightarrow> Inl AttributeError
              | Mapping r1 \<Rightarrow>
                  if w_word r1 = Some (ustr ''de'') then
                    (case x2 of
                       NotMapping \<Rightarrow> Inl AttributeError
                     | Mapping r2 \<Rightarrow>
                         if w_word r2 = Some (ustr ''Catalunya'') then Inr (Some i)
                         else find_generalitat rest (Suc i))
                  else find_generalitat rest (Suc i))
         | _ \<Rightarrow> find_generalitat rest (Suc i))
      else find_generalitat rest (Suc i))"

text \<open>\<^verbatim>\<open>re.sub(r'[^\w]', '_', topic)\<close>\<close>

definition sanitize :: "env \<Rightarrow> pystr \<Rightarrow> pystr" where
  "sanitize e topic = map (\<lambda>c. if isalnum e c \<or> c = 95 then c else 95) topic"

definition segment_filename :: "env \<Rightarrow> pystr \<Rightarrow> pystr \<Rightarrow> nat \<Rightarrow> pystr" where
  "segment_filename e level topic sentence_index =
     level @ ustr ''_'' @ sanitize e topic @ ustr ''_sentence'' @ decimal sentence_index
       @ ustr ''.mp3''"

text \<open>
  \<^verbatim>\<open>_extract_audio_segment\<close>: runs the tool and reports whether it exited with status 0.
  An exception of the call is caught and reported as failure too.
\<close>

definition extract_audio_segment ::
  "env \<Rightarrow> world \<Rightarrow> pystr \<Rightarrow> pystr \<Rightarrow> rat \<Rightarrow> rat \<Rightarrow> world \<times> bool" where
  "extract_audio_segment e w input_file output_file start duration =
     (let w' = w\<lparr>trace := trace w @ [EvTool input_file output_file start duration]\<rparr>
      in case ffmpeg e input_file output_file start duration of
           Exit rc \<Rightarrow> if rc \<noteq> 0 then (w', False) else (w', True)
         | ToolRaises \<Rightarrow> (w', False))"

text \<open>
  The block that closes a sentence; the source has it twice, once in the loop and once
  after it.  \<open>current_sentence\<close> is non-empty at both places.  The result of
  \<^verbatim>\<open>_extract_audio_segment\<close> is not looked at.  The duration is the exact difference
  here and the rounded difference of two floats in the source; it goes to the tool only.
\<close>

definition close_sentence ::
  "env \<Rightarrow> pystr \<Rightarrow> pystr \<Rightarrow> pystr \<Rightarrow> world \<Rightarrow> sentence list \<Rightarrow> word_rec list \<Rightarrow> pystr
     \<Rightarrow> world \<times> sentence list" where
  "close_sentence e audio_file_path level topic w sentences current_sentence current_text =
     (let first_word = hd current_sentence;
          last_word = last current_sentence;
          sentence_start = float_or_0 (w_start first_word);
          sentence_end = float_or_0 (w_end last_word);
          sentence_duration = sentence_end - sentence_start;
          sentence_index = length sentences + 1;
          fname = segment_filename e level topic sentence_index;
          fpath = path_join (audio_output_dir e) fname;
          (w', _) = extract_audio_segment e w audio_file_path fpath sentence_start
                      sentence_duration
      in (w', sentences @ [\<lparr>filename = fname, filepath = fpath,
                             transcript = strip current_text,
                             start_time = sentence_start, end_time = sentence_end\<rparr>]))"

definition ends_sentence :: "pystr \<Rightarrow> bool" where
  "ends_sentence word =
     (endswith word (ustr ''.'') \<or> endswith word (ustr ''!'') \<or> endswith word (ustr ''?''))"

fun sentence_loop ::
  "env \<Rightarrow> pystr \<Rightarrow> pystr \<Rightarrow> pystr \<Rightarrow> word_rec list \<Rightarrow> world \<Rightarrow> sentence list
     \<Rightarrow> word_rec list \<Rightarrow> pystr \<Rightarrow> world \<times> sentence list \<times> word_rec list \<times> pystr" where
  "sentence_loop e audio level topic [] w sentences current_sentence current_text =
     (w, sentences, current_sentence, current_text)"
| "sentence_loop e audio level topic (word_data # rest) w sentences current_sentence
     current_text =
     (let word = word_text word_data;
          current_sentence' = current_sentence @ [word_data];
          current_text' = current_text @ word @ ustr '' ''
      in if ends_sentence word then
           (case close_sentence e audio level topic w sentences current_sentence'
                   current_text' of
              (w', sentences') \<Rightarrow> sentence_loop e audio level topic rest w' sentences' [] [])
         else sentence_loop e audio level topic rest w sentences current_sentence'
                current_text')"

text \<open>The elements before \<open>max_index\<close>, as mappings (the scan has read every one of them).\<close>

fun the_mappings :: "item list \<Rightarrow> word_rec list" where
  "the_mappings [] = []"
| "the_mappings (Mapping r # xs) = r # the_mappings xs"
| "the_mappings (NotMapping # xs) = the_mappings xs"

text \<open>
  The second half of \<^verbatim>\<open>_extract_sentences_ffmpeg\<close>: the loop over
  \<^verbatim>\<open>alignment_result[:max_index]\<close> and the block for the words left over after it.
\<close>

definition process_words ::
  "env \<Rightarrow> world \<Rightarrow> word_rec list \<Rightarrow> pystr \<Rightarrow> pystr \<Rightarrow> pystr \<Rightarrow> world \<times> sentence list" where
  "process_words e w words audio_file_path level topic =
     (case sentence_loop e audio_file_path level topic words w [] [] [] of
        (w', sentences, current_sentence, current_text) \<Rightarrow>
          if current_sentence \<noteq> [] then
            close_sentence e audio_file_path level topic w' sentences current_sentence
              current_text
          else (w', sentences))"

text \<open>
  \<^verbatim>\<open>_extract_sentences_ffmpeg\<close>.  A result that is not a list gives the empty list; an
  exception inside is caught and gives the empty list too.
\<close>

definition extract_sentences_ffmpeg ::
  "env \<Rightarrow> world \<Rightarrow> alignment \<Rightarrow> pystr \<Rightarrow> pystr \<Rightarrow> pystr \<Rightarrow> world \<times> sentence list" where
  "extract_sentences_ffmpeg e w alignment_result audio_file_path level topic =
     (case alignment_result of
        AList xs \<Rightarrow>
          (case find_generalitat xs 0 of
             Inl _ \<Rightarrow> (w, [])
           | Inr generalitat_index \<Rightarrow>
               (let max_index = (case generalitat_index of None \<Rightarrow> length xs | Some i \<Rightarrow> i)
                in process_words e w (the_mappings (take max_index xs)) audio_file_path level
                     topic))
      | _ \<Rightarrow> (w, []))"

section \<open>Transcript cleaning\<close>

text \<open>
  \<^verbatim>\<open>.*$\<close> without flags: \<^verbatim>\<open>.\<close> matches any character but the line feed, and \<^verbatim>\<open>$\<close>
  matches at the end of the string and before a line feed that is its last character.
  So the text after the label fits when it holds no line feed, a last one apart.
\<close>

definition tail_ok :: "pystr \<Rightarrow> bool" where
  "tail_ok t = (10 \<notin> set (butlast t))"

text \<open>
  A literal of a pattern compiled with \<^verbatim>\<open>re.IGNORECASE\<close>, given in lower case, against a
  character of the text.  The letters of the two labels match their two ASCII forms; the
  letter s also matches U+017F, which \<^verbatim>\<open>re\<close> treats as its equivalent.
\<close>

definition ascii_lower :: "nat \<Rightarrow> nat" where
  "ascii_lower c = (if 65 \<le> c \<and> c \<le> 90 then c + 32 else c)"

definition ci_eq :: "nat \<Rightarrow> nat \<Rightarrow> bool" where
  "ci_eq p c = (ascii_lower c = p \<or> (p = 115 \<and> c = 383))"

definition label_here :: "bool \<Rightarrow> pystr \<Rightarrow> pystr \<Rightarrow> bool" where
  "label_here ignorecase label z =
     (length label \<le> length z
      \<and> list_all2 (if ignorecase then ci_eq else (=)) label (take (length label) z))"

text \<open>
  Whether \<^verbatim>\<open>\s*LABEL.*$\<close> (with \<open>skip_ws\<close>) or \<^verbatim>\<open>LABEL.*$\<close> (without) matches the text
  that follows a line feed.  \<^verbatim>\<open>\s*\<close> is greedy and no label starts with whitespace, so
  it takes the whole run of whitespace.
\<close>

definition attribution_match :: "bool \<Rightarrow> bool \<Rightarrow> pystr \<Rightarrow> pystr \<Rightarrow> bool" where
  "attribution_match skip_ws ignorecase label z =
     (let z' = (if skip_ws then dropWhile is_space z else z)
      in label_here ignorecase label z' \<and> tail_ok (drop (length label) z'))"

text \<open>
  \<^verbatim>\<open>re.sub(pattern, '', transcript)\<close> for a pattern \<^verbatim>\<open>\n\s*LABEL.*$\<close> or
  \<^verbatim>\<open>\nLABEL.*$\<close>: the leftmost line feed where the pattern matches starts the match,
  which runs to the end of the text, or to its last character when that is a line feed.
  Nothing can match after it.
\<close>

fun re_sub_attribution :: "bool \<Rightarrow> bool \<Rightarrow> pystr \<Rightarrow> pystr \<Rightarrow> pystr" where
  "re_sub_attribution skip_ws ignorecase label [] = []"
| "re_sub_attribution skip_ws ignorecase label (c # cs) =
     (if c = 10 \<and> attribution_match skip_ws ignorecase label cs
      then (if cs \<noteq> [] \<and> last cs = 10 then [10] else [])
      else c # re_sub_attribution skip_ws ignorecase label cs)"

text \<open>\<^verbatim>\<open>re.sub(r'\s+', ' ', transcript)\<close>\<close>

function collapse_ws :: "pystr \<Rightarrow> pystr" where
  "collapse_ws [] = []"
| "collapse_ws (c # cs) =
     (if is_space c then 32 # collapse_ws (dropWhile is_space cs) else c # collapse_ws cs)"
  by pat_completeness auto
termination
  by (relation "measure length") (auto simp: length_dropWhile_le less_Suc_eq_le)

definition clean_transcript :: "pystr \<Rightarrow> pystr" where
  "clean_transcript raw =
     (let t1 = re_sub_attribution False False (ustr ''Text:'') raw;
          t2 = re_sub_attribution True True (ustr ''author:'') t1;
          t3 = re_sub_attribution True True (ustr ''source:'') t2;
          t4 = map (\<lambda>c. if c = 10 then 32 else c) t3;
          t5 = collapse_ws t4
      in strip t5)"

section \<open>Processing one audio file\<close>

text \<open>
  The transcript: the text handed in when it is a non-empty string, else the content of the
  transcript file when a path is given and exists, else nothing.  Reading the file may
  raise; the outer handler of \<^verbatim>\<open>segment_audio_file\<close> catches that.
\<close>

definition get_transcript ::
  "env \<Rightarrow> world \<Rightarrow> pystr option \<Rightarrow> pystr option \<Rightarrow> failure + pystr" where
  "get_transcript e w transcript_text transcript_path =
     (if transcript_text \<noteq> None \<and> transcript_text \<noteq> Some [] then
        Inr (clean_transcript (the transcript_text))
      else if transcript_path \<noteq> None \<and> transcript_path \<noteq> Some []
              \<and> the transcript_path \<in> files w then
        (case read_text e (the transcript_path) of
           None \<Rightarrow> Inl ReadFailed
         | Some content \<Rightarrow> Inr (clean_transcript content))
      else Inl NoTranscript)"

text \<open>\<^verbatim>\<open>os.path.join(topic_dir, f"{audio_filename}_alignment.json")\<close>\<close>

definition alignment_file_of :: "pystr \<Rightarrow> pystr" where
  "alignment_file_of audio_path =
     path_join (dirname audio_path) (basename audio_path @ ustr ''_alignment.json'')"

text \<open>
  The inner \<^verbatim>\<open>try\<close> block: the call of the service, the choice of the alignment result
  (whose \<^verbatim>\<open>len\<close> is taken for the log when it comes from a mapping) and the dump of the
  response beside the audio file.  Every exception in it ends the function with
  \<^verbatim>\<open>False\<close>.  Opening the alignment file creates it, also when the dump then fails.
\<close>

definition align_and_dump ::
  "env \<Rightarrow> world \<Rightarrow> pystr \<Rightarrow> pystr \<Rightarrow> world \<times> (failure + alignment)" where
  "align_and_dump e w audio_path alignment_text =
     (let w1 = w\<lparr>trace := trace w @ [EvApiCall audio_path alignment_text]\<rparr>
      in case replicate_run e audio_path alignment_text of
           None \<Rightarrow> (w1, Inl ServiceFailed)
         | Some alignment_response \<Rightarrow>
             (case (case alignment_response of
                      RespDict (Some NonListUnsized) \<Rightarrow> Inl LenFailed
                    | RespDict (Some a) \<Rightarrow> Inr a
                    | RespDict None \<Rightarrow> Inl FormatRejected
                    | RespList xs \<Rightarrow> Inr (AList xs)
                    | RespOther \<Rightarrow> Inl FormatRejected) of
                Inl f \<Rightarrow> (w1, Inl f)
              | Inr alignment_result \<Rightarrow>
                  (let alignment_file = alignment_file_of audio_path;
                       w2 = w1\<lparr>files := insert alignment_file (files w1),
                               trace := trace w1 @ [EvWriteAlignment alignment_file]\<rparr>
                   in case dump_json e alignment_file of
                        OpenFails \<Rightarrow> (w1, Inl WriteFailed)
                      | DumpFails \<Rightarrow> (w2, Inl WriteFailed)
                      | WriteOk \<Rightarrow> (w2, Inr alignment_result))))"

text \<open>
  \<^verbatim>\<open>_save_segments_to_csv\<close>: one row (file name, transcript) per sentence, written one
  after the other to the manifest opened for appending.  A failure is caught and reported
  as \<^verbatim>\<open>False\<close>; the rows written before it stay in the manifest.
\<close>

definition save_segments_to_csv :: "env \<Rightarrow> world \<Rightarrow> sentence list \<Rightarrow> world \<times> bool" where
  "save_segments_to_csv e w sentences =
     (let rows = map (\<lambda>s. (filename s, transcript s)) sentences
      in if csv_append_ok e
         then (w\<lparr>manifest := manifest w @ rows, trace := trace w @ [EvCsvAppend rows]\<rparr>, True)
         else
           (let written = take (csv_rows_written e) rows
            in (w\<lparr>manifest := manifest w @ written,
                  trace := trace w @ (if written = [] then [] else [EvCsvAppend written])\<rparr>,
                False)))"

text \<open>
  \<^verbatim>\<open>segment_audio_file\<close>.  The result of \<^verbatim>\<open>_save_segments_to_csv\<close> is not looked at.
\<close>

definition segment_audio_file ::
  "env \<Rightarrow> world \<Rightarrow> pystr \<Rightarrow> pystr option \<Rightarrow> pystr option \<Rightarrow> pystr \<Rightarrow> pystr \<Rightarrow> world \<times> bool" where
  "segment_audio_file e w audio_path transcript_text transcript_path level topic_name =
     (case get_transcript e w transcript_text transcript_path of
        Inl _ \<Rightarrow> (w, False)
      | Inr clean_text \<Rightarrow>
          (case align_and_dump e w audio_path (clean_text @ ustr '' Generalitat de Catalunya'') of
             (w1, Inl _) \<Rightarrow> (w1, False)
           | (w1, Inr alignment_result) \<Rightarrow>
               (case extract_sentences_ffmpeg e w1 alignment_result audio_path level
                       topic_name of
                  (w2, sentences) \<Rightarrow>
                    (case save_segments_to_csv e w2 sentences of
                       (w3, _) \<Rightarrow> (w3, True)))))"

section \<open>Walking the corpus\<close>

text \<open>
  \<^verbatim>\<open>str.lower()\<close>: the ASCII letters here, every other code point by the table of the
  surrounding (which may give several code points for one).
\<close>

definition lower :: "env \<Rightarrow> pystr \<Rightarrow> pystr" where
  "lower e s = concat (map (\<lambda>c. if c < 128 then [ascii_lower c] else lower_other e c) s)"

definition is_rapid :: "env \<Rightarrow> pystr \<Rightarrow> bool" where
  "is_rapid e f = contains (ustr ''rapid'') (lower e f)"

text \<open>
  The choice of audio files in \<^verbatim>\<open>_process_directory_scan\<close>, from the listing of the topic
  directory.
\<close>

definition scan_audio_files :: "env \<Rightarrow> pystr list \<Rightarrow> pystr list" where
  "scan_audio_files e listing =
     (let all_files = filter (\<lambda>f. endswith f (ustr ''.mp3'')) listing;
          rapid_files = filter (\<lambda>f. is_rapid e f) all_files;
          other_files = filter (\<lambda>f. \<not> is_rapid e f) all_files
      in if rapid_files \<noteq> [] then rapid_files else other_files)"

text \<open>
  The choice of audio files in \<^verbatim>\<open>_process_from_master_data\<close>.  \<open>entries\<close> is the value of
  \<^verbatim>\<open>audio_files\<close> in the topic's data when it is a list (\<open>None\<close> otherwise); an entry is
  \<open>Some path\<close> when it is a mapping with a \<^verbatim>\<open>path\<close>, which is a string.  Paths that do
  not exist are passed over.  The test for \<^verbatim>\<open>rapid\<close> reads the whole path of an entry.
  With nothing chosen this way, the topic directory is listed (\<open>listing\<close>, \<open>None\<close> when
  \<^verbatim>\<open>os.listdir\<close> raises) and the test reads the file names.
\<close>

definition master_audio_files ::
  "env \<Rightarrow> world \<Rightarrow> pystr option list option \<Rightarrow> pystr \<Rightarrow> pystr list option
     \<Rightarrow> exn + pystr list" where
  "master_audio_files e w entries topic_dir listing =
     (let audio_files =
            (case entries of
               None \<Rightarrow> []
             | Some audio_data \<Rightarrow>
                 (let present = filter (\<lambda>p. p \<in> files w)
                                  (map the (filter (\<lambda>d. d \<noteq> None) audio_data));
                      rapid_files = filter (\<lambda>p. is_rapid e p) present;
                      other_files = filter (\<lambda>p. \<not> is_rapid e p) present
                  in if rapid_files \<noteq> [] then rapid_files else other_files))
      in if audio_files = [] then
           (case listing of
              None \<Rightarrow> Inl OSError
            | Some names \<Rightarrow>
                (let all_files = filter (\<lambda>f. endswith f (ustr ''.mp3'')) names;
                     rapid_files = map (path_join topic_dir)
                                     (filter (\<lambda>f. is_rapid e f) all_files);
                     other_files = map (path_join topic_dir)
                                     (filter (\<lambda>f. \<not> is_rapid e f) all_files)
                 in Inr (if rapid_files \<noteq> [] then rapid_files else other_files)))
         else Inr audio_files)"

text \<open>
  The directory tree as \<^verbatim>\<open>os.listdir\<close> and \<^verbatim>\<open>os.path.isdir\<close> show it: the entries of the
  data directory, and for each the entries below it.  A listing is \<open>None\<close> when
  \<^verbatim>\<open>os.listdir\<close> raises for that directory.  The listing of an entry that is not a
  directory is never asked for.  The topic directory is listed twice in the source, for
  the transcript and for the audio files; both calls see the one listing given here.
\<close>

record topic_entry =
  t_name :: pystr
  t_isdir :: bool
  t_listing :: "pystr list option"

record level_entry =
  l_name :: pystr
  l_isdir :: bool
  l_listing :: "topic_entry list option"

text \<open>
  A loop body either goes on to the next element (\<^verbatim>\<open>continue\<close>, or its end), or leaves the
  function with \<^verbatim>\<open>return processed_count\<close>, or is left by an exception that nothing in
  the function catches.
\<close>

datatype 'a ctl = Next 'a | Return 'a | Raise exn 'a

definition is_done :: "world \<Rightarrow> pystr \<Rightarrow> bool" where
  "is_done w audio_path = (audio_path @ ustr ''_alignment.json'' \<in> files w)"

text \<open>
  The first half of the loop body of \<^verbatim>\<open>_process_directory_scan\<close>: the checks that end
  with \<^verbatim>\<open>continue\<close>, in the order of the source, and the work item (audio path and
  transcript path) when none of them applies.  Listing the topic directory may raise.
\<close>

definition find_work_item ::
  "env \<Rightarrow> pystr \<Rightarrow> topic_entry \<Rightarrow> world \<Rightarrow> exn + (pystr \<times> pystr) option" where
  "find_work_item e level_dir t w =
     (let topic = t_name t; topic_dir = path_join level_dir topic
      in if \<not> t_isdir t \<or> startswith topic (ustr ''.'') then Inr None
         else
           (case t_listing t of
              None \<Rightarrow> Inl OSError
            | Some listing \<Rightarrow>
                (let transcript_files = filter (\<lambda>f. endswith f (ustr ''.txt'')) listing
                 in if transcript_files = [] then Inr None
                    else
                      (let transcript_path = path_join topic_dir (hd transcript_files);
                           audio_files = scan_audio_files e listing
                       in if audio_files = [] then Inr None
                          else
                            (let audio_file = hd audio_files;
                                 audio_path = path_join topic_dir audio_file
                             in if is_done w audio_path then Inr None
                                else Inr (Some (audio_path, transcript_path)))))))"

text \<open>The loop body: the checks, then the call and the count.\<close>

definition scan_topic ::
  "env \<Rightarrow> bool \<Rightarrow> pystr \<Rightarrow> pystr \<Rightarrow> topic_entry \<Rightarrow> world \<times> nat \<Rightarrow> (world \<times> nat) ctl" where
  "scan_topic e limit_to_one level level_dir t st =
     (case st of (w, processed_count) \<Rightarrow>
       (case find_work_item e level_dir t w of
          Inl x \<Rightarrow> Raise x (w, processed_count)
        | Inr None \<Rightarrow> Next (w, processed_count)
        | Inr (Some (audio_path, transcript_path)) \<Rightarrow>
            (case segment_audio_file e w audio_path None (Some transcript_path) level
                    (t_name t) of
               (w', success) \<Rightarrow>
                 if success then
                   (if limit_to_one \<and> processed_count + 1 \<ge> 1
                    then Return (w', processed_count + 1)
                    else Next (w', processed_count + 1))
                 else Next (w', processed_count))))"

fun scan_topics ::
  "env \<Rightarrow> bool \<Rightarrow> pystr \<Rightarrow> pystr \<Rightarrow> topic_entry list \<Rightarrow> world \<times> nat \<Rightarrow> (world \<times> nat) ctl" where
  "scan_topics e limit_to_one level level_dir [] st = Next st"
| "scan_topics e limit_to_one level level_dir (t # ts) st =
     (case scan_topic e limit_to_one level level_dir t st of
        Return r \<Rightarrow> Return r
      | Raise x r \<Rightarrow> Raise x r
      | Next st' \<Rightarrow> scan_topics e limit_to_one level level_dir ts st')"

fun scan_levels ::
  "env \<Rightarrow> bool \<Rightarrow> pystr \<Rightarrow> level_entry list \<Rightarrow> world \<times> nat \<Rightarrow> (world \<times> nat) ctl" where
  "scan_levels e limit_to_one data_dir [] st = Next st"
| "scan_levels e limit_to_one data_dir (l # ls) st =
     (let level = l_name l; level_dir = path_join data_dir level
      in if \<not> l_isdir l \<or> startswith level (ustr ''.'') then
           scan_levels e limit_to_one data_dir ls st
         else
           (case l_listing l of
              None \<Rightarrow> Raise OSError st
            | Some topics \<Rightarrow>
                (case scan_topics e limit_to_one level level_dir topics st of
                   Return r \<Rightarrow> Return r
                 | Raise x r \<Rightarrow> Raise x r
                 | Next st' \<Rightarrow> scan_levels e limit_to_one data_dir ls st')))"

text \<open>
  \<^verbatim>\<open>_process_directory_scan\<close>: the world it leaves, and the count it returns or the
  exception that leaves it.  \<open>tree\<close> is the listing of the data directory (\<open>None\<close> when
  listing it raises).  The only caller, \<^verbatim>\<open>process_directory\<close>, catches the exception,
  logs it and returns 0; the run is over then.
\<close>

definition process_directory_scan ::
  "env \<Rightarrow> bool \<Rightarrow> pystr \<Rightarrow> level_entry list option \<Rightarrow> world \<Rightarrow> world \<times> (exn + nat)" where
  "process_directory_scan e limit_to_one data_dir tree w =
     (case tree of
        None \<Rightarrow> (w, Inl OSError)
      | Some levels \<Rightarrow>
          (case scan_levels e limit_to_one data_dir levels (w, 0) of
             Return (w', processed_count) \<Rightarrow> (w', Inr processed_count)
           | Next (w', processed_count) \<Rightarrow> (w', Inr processed_count)
           | Raise x (w', processed_count) \<Rightarrow> (w', Inl x)))"

text \<open>
  The loop over the chosen audio files of one topic in \<^verbatim>\<open>_process_from_master_data\<close>:
  a file whose alignment file exists is passed over; the loop ends after the first file
  processed with success (\<^verbatim>\<open>break\<close>, or \<^verbatim>\<open>return\<close> in the bounded mode) and goes on to
  the next file after a failure.
\<close>

fun master_audio_loop ::
  "env \<Rightarrow> bool \<Rightarrow> pystr option \<Rightarrow> pystr option \<Rightarrow> pystr \<Rightarrow> pystr \<Rightarrow> pystr list
     \<Rightarrow> world \<times> nat \<Rightarrow> (world \<times> nat) ctl" where
  "master_audio_loop e limit_to_one transcript_text transcript_path level_code topic_name []
     st = Next st"
| "master_audio_loop e limit_to_one transcript_text transcript_path level_code topic_name
     (audio_path # rest) (w, processed_count) =
     (if is_done w audio_path then
        master_audio_loop e limit_to_one transcript_text transcript_path level_code topic_name
          rest (w, processed_count)
      else
        (case segment_audio_file e w audio_path transcript_text transcript_path level_code
                topic_name of
           (w', success) \<Rightarrow>
             if success then
               (if limit_to_one \<and> processed_count + 1 \<ge> 1
                then Return (w', processed_count + 1)
                else Next (w', processed_count + 1))
             else
               master_audio_loop e limit_to_one transcript_text transcript_path level_code
                 topic_name rest (w', processed_count)))"

section \<open>Notions of the specification\<close>

text \<open>
  The marker triple stands at index \<open>i\<close> of a word sequence; the index expressions are
  those of the scan.
\<close>

definition marker_at :: "word_rec list \<Rightarrow> nat \<Rightarrow> bool" where
  "marker_at ws i =
     (i + 2 < length ws \<and> w_word (ws ! i) = Some (ustr ''Generalitat'')
      \<and> w_word (ws ! (i + 1)) = Some (ustr ''de'')
      \<and> w_word (ws ! (i + 2)) = Some (ustr ''Catalunya''))"

text \<open>
  \<open>k\<close> is where segmentation stops: the first index at which the marker triple stands,
  or the length of the sequence when it stands nowhere.
\<close>

definition cut_point :: "word_rec list \<Rightarrow> nat \<Rightarrow> bool" where
  "cut_point ws k = ((\<forall>j<k. \<not> marker_at ws j) \<and> (marker_at ws k \<or> k = length ws))"

text \<open>Two texts are equal modulo whitespace when they agree after all whitespace is removed.\<close>

definition no_ws :: "pystr \<Rightarrow> pystr" where
  "no_ws s = filter (\<lambda>c. \<not> is_space c) s"

text \<open>Texts joined by single spaces, as \<^verbatim>\<open>' '.join\<close> does.\<close>

fun join_spaces :: "pystr list \<Rightarrow> pystr" where
  "join_spaces [] = []"
| "join_spaces [x] = x"
| "join_spaces (x # y # r) = x @ ustr '' '' @ join_spaces (y # r)"

text \<open>A record with every missing field replaced by the default the code reads for it.\<close>

definition fill_defaults :: "word_rec \<Rightarrow> word_rec" where
  "fill_defaults r =
     \<lparr>w_word = Some (word_text r), w_start = Some (float_or_0 (w_start r)),
      w_end = Some (float_or_0 (w_end r))\<rparr>"

text \<open>
  The sentence that \<open>close_sentence\<close> appends, as a function of its number, the buffered
  words and the buffered text.
\<close>

definition sentence_of ::
  "env \<Rightarrow> pystr \<Rightarrow> pystr \<Rightarrow> nat \<Rightarrow> word_rec list \<Rightarrow> pystr \<Rightarrow> sentence" where
  "sentence_of e level topic n current_sentence current_text =
     \<lparr>filename = segment_filename e level topic n,
      filepath = path_join (audio_output_dir e) (segment_filename e level topic n),
      transcript = strip current_text,
      start_time = float_or_0 (w_start (hd current_sentence)),
      end_time = float_or_0 (w_end (last current_sentence))\<rparr>"

text \<open>The event of cutting the clip of a sentence, and the manifest rows of sentences.\<close>

definition tool_event :: "pystr \<Rightarrow> sentence \<Rightarrow> event" where
  "tool_event audio s = EvTool audio (filepath s) (start_time s) (end_time s - start_time s)"

definition rows_of :: "sentence list \<Rightarrow> (pystr \<times> pystr) list" where
  "rows_of sentences = map (\<lambda>s. (filename s, transcript s)) sentences"

text \<open>
  The rows that an append of \<open>rows\<close> leaves in the manifest: all of them when it goes
  through, those written before the failure when it does not.
\<close>

definition written_rows :: "env \<Rightarrow> (pystr \<times> pystr) list \<Rightarrow> (pystr \<times> pystr) list" where
  "written_rows e rows = (if csv_append_ok e then rows else take (csv_rows_written e) rows)"

text \<open>
  What follows the writing of the alignment file when the item is processed to its end:
  one tool run per sentence, then the append to the manifest, unless it fails before
  its first row.
\<close>

definition item_events :: "env \<Rightarrow> pystr \<Rightarrow> sentence list \<Rightarrow> event list" where
  "item_events e audio ss =
     map (tool_event audio) ss
     @ (if csv_append_ok e \<or> written_rows e (rows_of ss) \<noteq> []
        then [EvCsvAppend (written_rows e (rows_of ss))] else [])"

text \<open>How a character of a label is compared: exactly, or ignoring case.\<close>

definition rel_of :: "bool \<Rightarrow> nat \<Rightarrow> nat \<Rightarrow> bool" where
  "rel_of ignorecase = (if ignorecase then ci_eq else (=))"

text \<open>
  The pieces of a text between its runs of whitespace, as \<^verbatim>\<open>str.split()\<close> gives them.
\<close>

function split_ws :: "pystr \<Rightarrow> pystr list" where
  "split_ws s =
     (let s' = dropWhile is_space s
      in if s' = [] then []
         else takeWhile (\<lambda>c. \<not> is_space c) s'
                # split_ws (dropWhile (\<lambda>c. \<not> is_space c) s'))"
  by pat_completeness auto
termination
proof (relation "measure length")
  show "wf (measure length)" by simp
next
  fix s x :: pystr
  assume x: "x = dropWhile is_space s" and ne: "x \<noteq> []"
  from ne obtain c r where cr: "x = c # r" by (cases x) auto
  with x have "\<not> is_space c" by (metis hd_dropWhile list.sel(1) ne)
  with cr have "length (dropWhile (\<lambda>c. \<not> is_space c) x) \<le> length r"
    by (simp add: length_dropWhile_le)
  moreover from x have "length x \<le> length s" by (simp add: length_dropWhile_le)
  ultimately show "(dropWhile (\<lambda>c. \<not> is_space c) x, s) \<in> measure length"
    using cr by simp
qed

declare split_ws.simps [simp del]

text \<open>
  The three removals of \<^verbatim>\<open>clean_transcript\<close>, in the order in which they run: whether
  whitespace may stand between the line feed and the label, whether the letter case is
  ignored, and the label.
\<close>

definition removals :: "(bool \<times> bool \<times> pystr) list" where
  "removals =
     [(False, False, ustr ''Text:''), (True, True, ustr ''author:''),
      (True, True, ustr ''source:'')]"

text \<open>A line starts with the label, after optional whitespace when \<open>skip_ws\<close> is set.\<close>

definition line_has_label :: "bool \<Rightarrow> bool \<Rightarrow> pystr \<Rightarrow> pystr \<Rightarrow> bool" where
  "line_has_label skip_ws ignorecase label line =
     label_here ignorecase label (if skip_ws then dropWhile is_space line else line)"

text \<open>
  What a removal leaves of the text before the line feed of a removed last line: all of
  it, or, when whitespace may stand before the label, the text with the whitespace at its
  end cut from the first line feed in that whitespace on (so blank lines before the label
  line go too).
\<close>

definition cut_before :: "bool \<Rightarrow> pystr \<Rightarrow> pystr" where
  "cut_before skip_ws body =
     (if skip_ws
      then rev (dropWhile is_space (rev body))
             @ takeWhile (\<lambda>c. c \<noteq> 10) (rev (takeWhile is_space (rev body)))
      else body)"

text \<open>No two adjacent whitespace characters.\<close>

fun single_spaced :: "pystr \<Rightarrow> bool" where
  "single_spaced (a # b # r) = (\<not> (is_space a \<and> is_space b) \<and> single_spaced (b # r))"
| "single_spaced _ = True"

section \<open>Concrete inputs\<close>

definition timed :: "pystr \<Rightarrow> rat \<Rightarrow> rat \<Rightarrow> word_rec" where
  "timed t a b = \<lparr>w_word = Some t, w_start = Some a, w_end = Some b\<rparr>"

text \<open>The four words of the boundary example; the third is \<^verbatim>\<open>Ad\<close>, U+00E9, \<^verbatim>\<open>u\<close>.\<close>

definition bon_dia :: "word_rec list" where
  "bon_dia =
     [timed (ustr ''Bon'') 0 (1 / 2), timed (ustr ''dia.'') (1 / 2) 1,
      timed (ustr ''Ad'' @ [233] @ ustr ''u'') 1 (3 / 2), timed (ustr ''amic.'') (3 / 2) 2]"

definition hola_marker :: "word_rec list" where
  "hola_marker =
     [timed (ustr ''Hola'') 0 1, timed (ustr ''Generalitat'') 1 2, timed (ustr ''de'') 2 3,
      timed (ustr ''Catalunya'') 3 4]"

text \<open>
  A surrounding in which the service answers with the four words above followed by the
  marker, every file can be written, and the audio tool exits with status 1 on every call.
  (When the append to the manifest is made to fail, it fails before its first row.)
\<close>

definition example_env :: env where
  "example_env =
     \<lparr>audio_output_dir = ustr ''out'',
      isalnum = (\<lambda>c. (48 \<le> c \<and> c \<le> 57) \<or> (65 \<le> c \<and> c \<le> 90) \<or> (97 \<le> c \<and> c \<le> 122)),
      lower_other = (\<lambda>c. [c]),
      read_text = (\<lambda>p. Some (ustr ''Bon dia.'')),
      replicate_run = (\<lambda>a t. Some (RespList (map Mapping (bon_dia @ drop 1 hola_marker)))),
      dump_json = (\<lambda>p. WriteOk),
      ffmpeg = (\<lambda>i out s d. Exit 1),
      csv_append_ok = True,
      csv_rows_written = 0\<rparr>"

definition empty_world :: world where
  "empty_world = \<lparr>files = {}, manifest = [], trace = []\<rparr>"

text \<open>Two records with fields missing.\<close>

definition partial_words :: "word_rec list" where
  "partial_words =
     [\<lparr>w_word = None, w_start = None, w_end = Some 1\<rparr>,
      \<lparr>w_word = Some (ustr ''dia.''), w_start = Some 1, w_end = None\<rparr>]"

text \<open>The audio path of the example item.\<close>

definition example_audio :: pystr where
  "example_audio = ustr ''b1/t/t_rapid.mp3''"


text \<open>A listing of a topic directory with one slow and two rapid variants.\<close>

definition variant_listing :: "pystr list" where
  "variant_listing =
     [ustr ''t.txt'', ustr ''topic_lent.mp3'', ustr ''topic_rapid.mp3'', ustr ''b_RAPID.mp3'']"

text \<open>
  A small corpus for the walker: one level with two topics, whose transcript files exist.
  The service raises for the audio file of the first topic and answers for every other
  file.
\<close>

definition flaky_env :: env where
  "flaky_env =
     example_env\<lparr>replicate_run :=
       (\<lambda>a t. if a = ustr ''d/b1/s/s_rapid.mp3'' then None else replicate_run example_env a t)\<rparr>"

definition corpus_world :: world where
  "corpus_world =
     \<lparr>files = {ustr ''d/b1/s/s.txt'', ustr ''d/b1/t/t.txt''}, manifest = [], trace = []\<rparr>"

definition topic_s :: topic_entry where
  "topic_s = \<lparr>t_name = ustr ''s'', t_isdir = True,
               t_listing = Some [ustr ''s.txt'', ustr ''s_rapid.mp3'']\<rparr>"

definition topic_t :: topic_entry where
  "topic_t = \<lparr>t_name = ustr ''t'', t_isdir = True,
               t_listing = Some [ustr ''t.txt'', ustr ''t_lent.mp3'', ustr ''t_rapid.mp3'']\<rparr>"

definition corpus_tree :: "level_entry list" where
  "corpus_tree =
     [\<lparr>l_name = ustr ''b1'', l_isdir = True, l_listing = Some [topic_s, topic_t]\<rparr>]"

definition world_after_s :: world where
  "world_after_s =
     corpus_world\<lparr>trace := [EvApiCall (ustr ''d/b1/s/s_rapid.mp3'')
                               (ustr ''Bon dia. Generalitat de Catalunya'')]\<rparr>"

text \<open>A surrounding in which the service answers with a list whose element is no mapping.\<close>

definition broken_env :: env where
  "broken_env = example_env\<lparr>replicate_run := (\<lambda>a t. Some (RespList [NotMapping]))\<rparr>"

text \<open>
  A topic of an index whose directory is called \<^verbatim>\<open>rapid\<close>: its transcript and its two
  audio files, a slow and a rapid variant, exist; the index lists the slow one first.
\<close>

definition index_world :: world where
  "index_world =
     \<lparr>files = {ustr ''d/rapid/c.txt'', ustr ''d/rapid/c_lent.mp3'',
               ustr ''d/rapid/c_rapid.mp3''},
      manifest = [], trace = []\<rparr>"

definition index_entries :: "pystr option list" where
  "index_entries = [Some (ustr ''d/rapid/c_lent.mp3''), Some (ustr ''d/rapid/c_rapid.mp3'')]"

definition index_listing :: "pystr list" where
  "index_listing = [ustr ''c.txt'', ustr ''c_lent.mp3'', ustr ''c_rapid.mp3'']"

section \<open>Properties of sentence extraction\<close>

lemma ustr_Nil: "ustr [] = []"
  by (simp add: ustr_def)

lemma ustr_Cons: "ustr (c # cs) = of_char c # ustr cs"
  by (simp add: ustr_def)

lemma marker_at_0:
  "marker_at (a # ws) 0 =
     (w_word a = Some (ustr ''Generalitat'') \<and>
      (\<exists>b c r. ws = b # c # r \<and> w_word b = Some (ustr ''de'')
          \<and> w_word c = Some (ustr ''Catalunya'')))"
proof (cases ws)
  case Nil
  then show ?thesis by (simp add: marker_at_def)
next
  case (Cons b ws')
  then show ?thesis by (cases ws') (auto simp: marker_at_def)
qed

lemma marker_at_Suc: "marker_at (a # ws) (Suc j) = marker_at ws j"
  by (simp add: marker_at_def)

lemma find_step:
  "find_generalitat (Mapping a # map Mapping ws) i =
     (if marker_at (a # ws) 0 then Inr (Some i) else find_generalitat (map Mapping ws) (Suc i))"
proof (cases ws)
  case Nil
  then show ?thesis
    by (subst find_generalitat.simps(3)) (simp add: marker_at_0 del: find_generalitat.simps)
next
  case (Cons b ws')
  show ?thesis
  proof (cases ws')
    case Nil
    with Cons show ?thesis
      by (subst find_generalitat.simps(3)) (simp add: marker_at_0 del: find_generalitat.simps)
  next
    case (Cons c r)
    with \<open>ws = b # ws'\<close> show ?thesis
      by (subst find_generalitat.simps(3)) (simp add: marker_at_0 del: find_generalitat.simps)
  qed
qed

lemma find_generalitat_first:
  "\<exists>r. find_generalitat (map Mapping ws) i = Inr r \<and>
     (case r of
        None \<Rightarrow> (\<forall>j. \<not> marker_at ws j)
      | Some k \<Rightarrow> i \<le> k \<and> marker_at ws (k - i) \<and> (\<forall>j < k - i. \<not> marker_at ws j))"
proof (induction ws arbitrary: i)
  case Nil
  then show ?case by (simp add: marker_at_def)
next
  case (Cons a ws)
  show ?case
  proof (cases "marker_at (a # ws) 0")
    case True
    then show ?thesis by (simp add: find_step del: find_generalitat.simps)
  next
    case False
    from Cons.IH [of "Suc i"] obtain r where
      r: "find_generalitat (map Mapping ws) (Suc i) = Inr r"
      and c: "case r of None \<Rightarrow> (\<forall>j. \<not> marker_at ws j)
        | Some k \<Rightarrow> Suc i \<le> k \<and> marker_at ws (k - Suc i) \<and> (\<forall>j < k - Suc i. \<not> marker_at ws j)"
      by blast
    have f: "find_generalitat (map Mapping (a # ws)) i = Inr r"
      using False r by (simp add: find_step del: find_generalitat.simps)
    show ?thesis
    proof (cases r)
      case None
      with c have "\<forall>j. \<not> marker_at ws j" by simp
      with False have "\<forall>j. \<not> marker_at (a # ws) j"
        by (metis marker_at_Suc not0_implies_Suc)
      with f None show ?thesis by simp
    next
      case (Some k)
      with c have k: "Suc i \<le> k" "marker_at ws (k - Suc i)" "\<forall>j < k - Suc i. \<not> marker_at ws j"
        by simp_all
      from k(1) have e: "k - i = Suc (k - Suc i)" by simp
      have "marker_at (a # ws) (k - i)" using k(2) e by (simp add: marker_at_Suc)
      moreover have "\<forall>j < k - i. \<not> marker_at (a # ws) j"
      proof (intro allI impI)
        fix j assume "j < k - i"
        then show "\<not> marker_at (a # ws) j"
          using False k(3) e by (cases j) (auto simp: marker_at_Suc)
      qed
      ultimately show ?thesis using f Some k(1) by simp
    qed
  qed
qed

lemma the_mappings_map: "the_mappings (map Mapping ws) = ws"
  by (induction ws) auto

lemma the_mappings_take: "the_mappings (take k (map Mapping ws)) = take k ws"
  by (simp add: the_mappings_map take_map)

lemma close_sentence_eq:
  "close_sentence e a l t w ss cs ct =
     (w\<lparr>trace := trace w @
          [EvTool a (filepath (sentence_of e l t (length ss + 1) cs ct))
             (start_time (sentence_of e l t (length ss + 1) cs ct))
             (end_time (sentence_of e l t (length ss + 1) cs ct)
                - start_time (sentence_of e l t (length ss + 1) cs ct))]\<rparr>,
      ss @ [sentence_of e l t (length ss + 1) cs ct])"
  by (simp add: close_sentence_def sentence_of_def extract_audio_segment_def Let_def
      split: tool_outcome.splits)

lemma sentence_of_ffmpeg: "sentence_of (e\<lparr>ffmpeg := f\<rparr>) l t n cs ct = sentence_of e l t n cs ct"
  by (simp add: sentence_of_def segment_filename_def sanitize_def)

lemma loop_step:
  "sentence_loop e a l t (r # rest) w ss cs ct =
     (if ends_sentence (word_text r) then
        sentence_loop e a l t rest (fst (close_sentence e a l t w ss (cs @ [r]) (ct @ word_text r @ ustr '' '')))
          (ss @ [sentence_of e l t (length ss + 1) (cs @ [r]) (ct @ word_text r @ ustr '' '')]) [] []
      else sentence_loop e a l t rest w ss (cs @ [r]) (ct @ word_text r @ ustr '' ''))"
  by (simp add: Let_def close_sentence_eq)

lemma loop_ffmpeg:
  "snd (sentence_loop (e\<lparr>ffmpeg := f\<rparr>) a l t ws v ss cs ct) = snd (sentence_loop e a l t ws w ss cs ct)"
proof (induction ws arbitrary: v w ss cs ct)
  case Nil
  then show ?case by simp
next
  case (Cons r ws)
  show ?case
    unfolding loop_step sentence_of_ffmpeg
    by (simp add: Cons.IH del: sentence_loop.simps)
qed

lemma process_words_ffmpeg:
  "snd (process_words (e\<lparr>ffmpeg := f\<rparr>) v ws a l t) = snd (process_words e w ws a l t)"
proof -
  obtain v' ss cs ct where 1: "sentence_loop (e\<lparr>ffmpeg := f\<rparr>) a l t ws v [] [] [] = (v', ss, cs, ct)"
    by (metis prod_cases4)
  obtain w' where 2: "sentence_loop e a l t ws w [] [] [] = (w', ss, cs, ct)"
    using loop_ffmpeg [where e = e and f = f and a = a and l = l and t = t and ws = ws
        and v = v and ss = "[]" and cs = "[]" and ct = "[]" and w = w] 1
    by (metis prod.collapse snd_conv)
  show ?thesis
    by (simp add: process_words_def 1 2 close_sentence_eq sentence_of_ffmpeg)
qed

lemma loop_no_end:
  "\<forall>r \<in> set ws. \<not> ends_sentence (word_text r) \<Longrightarrow>
   sentence_loop e a l t ws w ss cs ct =
     (w, ss, cs @ ws, ct @ concat (map (\<lambda>r. word_text r @ ustr '' '') ws))"
proof (induction ws arbitrary: cs ct)
  case Nil
  then show ?case by simp
next
  case (Cons r ws)
  then show ?case
    unfolding loop_step by simp
qed

lemma concat_join:
  "xs \<noteq> [] \<Longrightarrow> concat (map (\<lambda>x. x @ ustr '' '') xs) = join_spaces xs @ ustr '' ''"
  by (induction xs rule: join_spaces.induct) simp_all

lemma space32: "is_space 32"
  by (simp add: is_space_def)

lemma ustr_space: "ustr '' '' = [32]"
  by (simp add: ustr_Cons ustr_Nil)

lemma strip_append_space: "strip (s @ [32]) = strip s"
proof (cases "\<forall>c \<in> set s. is_space c")
  case True
  then have "dropWhile is_space s = []" and "dropWhile is_space (s @ [32]) = []"
    by (simp_all add: space32)
  then show ?thesis by (simp only: strip_def)
next
  case False
  then obtain x where "x \<in> set s" "\<not> is_space x" by blast
  then have "dropWhile is_space (s @ [32]) = dropWhile is_space s @ [32]"
    by (rule dropWhile_append1)
  then have "strip (s @ [32]) = rev (dropWhile is_space (rev (dropWhile is_space s @ [32])))"
    by (simp only: strip_def)
  also have "\<dots> = strip s"
    by (simp add: strip_def space32)
  finally show ?thesis .
qed

lemma no_ws_append: "no_ws (a @ b) = no_ws a @ no_ws b"
  by (simp add: no_ws_def)

lemma filter_dropWhile_not: "filter (\<lambda>c. \<not> P c) (dropWhile P xs) = filter (\<lambda>c. \<not> P c) xs"
  by (induction xs) auto

lemma no_ws_strip: "no_ws (strip s) = no_ws s"
proof -
  have "filter (\<lambda>c. \<not> is_space c) (dropWhile is_space (rev (dropWhile is_space s)))
        = filter (\<lambda>c. \<not> is_space c) (rev (dropWhile is_space s))"
    by (rule filter_dropWhile_not)
  then show ?thesis
    by (simp add: no_ws_def strip_def filter_dropWhile_not flip: rev_filter)
qed

lemma no_ws_space: "no_ws (ustr '' '') = []"
  by (simp add: no_ws_def ustr_space space32)

lemma loop_text:
  "sentence_loop e a l t ws w ss cs ct = (w', ss', cs', ct') \<Longrightarrow> (cs = [] \<longrightarrow> ct = []) \<Longrightarrow>
   no_ws (concat (map transcript ss')) @ no_ws ct'
     = no_ws (concat (map transcript ss)) @ no_ws ct @ no_ws (concat (map word_text ws))
   \<and> (cs' = [] \<longrightarrow> ct' = [])"
proof (induction ws arbitrary: w ss cs ct)
  case Nil
  then show ?case by (simp add: no_ws_def)
next
  case (Cons r ws)
  show ?case
  proof (cases "ends_sentence (word_text r)")
    case True
    let ?s = "sentence_of e l t (length ss + 1) (cs @ [r]) (ct @ word_text r @ ustr '' '')"
    from Cons.prems(1) True have
      "sentence_loop e a l t ws (fst (close_sentence e a l t w ss (cs @ [r]) (ct @ word_text r @ ustr '' '')))
          (ss @ [?s]) [] [] = (w', ss', cs', ct')"
      unfolding loop_step by simp
    from Cons.IH [OF this] have
      "no_ws (concat (map transcript ss')) @ no_ws ct'
        = no_ws (concat (map transcript (ss @ [?s]))) @ no_ws [] @ no_ws (concat (map word_text ws))"
      and e: "cs' = [] \<longrightarrow> ct' = []" by simp_all
    moreover have "no_ws (transcript ?s) = no_ws ct @ no_ws (word_text r)"
      by (simp add: sentence_of_def no_ws_strip no_ws_append no_ws_space)
    ultimately show ?thesis by (simp add: no_ws_append no_ws_def)
  next
    case False
    with Cons.prems(1) have
      "sentence_loop e a l t ws w ss (cs @ [r]) (ct @ word_text r @ ustr '' '') = (w', ss', cs', ct')"
      unfolding loop_step by simp
    from Cons.IH [OF this] show ?thesis
      by (simp add: no_ws_append no_ws_space)
  qed
qed

lemma process_words_text:
  "no_ws (concat (map transcript (snd (process_words e w ws a l t)))) = no_ws (concat (map word_text ws))"
proof -
  obtain w' ss cs ct where 1: "sentence_loop e a l t ws w [] [] [] = (w', ss, cs, ct)"
    by (metis prod_cases4)
  from loop_text [OF 1] have
    2: "no_ws (concat (map transcript ss)) @ no_ws ct = no_ws (concat (map word_text ws))"
    and 3: "cs = [] \<longrightarrow> ct = []" by (simp_all add: no_ws_def)
  show ?thesis
  proof (cases "cs = []")
    case True
    with 1 2 3 show ?thesis by (simp add: process_words_def no_ws_def)
  next
    case False
    with 1 2 show ?thesis
      by (simp add: process_words_def close_sentence_eq sentence_of_def no_ws_append no_ws_strip)
  qed
qed

lemma word_text_fill: "word_text (fill_defaults r) = word_text r"
  by (simp add: fill_defaults_def word_text_def)

lemma sentence_of_fill:
  "cs \<noteq> [] \<Longrightarrow> sentence_of e l t n (map fill_defaults cs) ct = sentence_of e l t n cs ct"
  by (simp add: sentence_of_def hd_map last_map fill_defaults_def float_or_0_def)

lemma loop_fill:
  "sentence_loop e a l t ws w ss cs ct = (w', ss', cs', ct') \<Longrightarrow>
   sentence_loop e a l t (map fill_defaults ws) w ss (map fill_defaults cs) ct
     = (w', ss', map fill_defaults cs', ct')"
proof (induction ws arbitrary: w ss cs ct)
  case Nil
  then show ?case by simp
next
  case (Cons r ws)
  have s: "\<And>n x. sentence_of e l t n (map fill_defaults cs @ [fill_defaults r]) x
      = sentence_of e l t n (cs @ [r]) x"
    using sentence_of_fill [of "cs @ [r]"] by simp
  show ?case
  proof (cases "ends_sentence (word_text r)")
    case True
    with Cons.prems have
      "sentence_loop e a l t ws (fst (close_sentence e a l t w ss (cs @ [r]) (ct @ word_text r @ ustr '' '')))
          (ss @ [sentence_of e l t (length ss + 1) (cs @ [r]) (ct @ word_text r @ ustr '' '')]) [] []
        = (w', ss', cs', ct')"
      unfolding loop_step by simp
    from Cons.IH [OF this] True show ?thesis
      unfolding list.map loop_step word_text_fill
      by (simp add: close_sentence_eq s del: sentence_loop.simps)
  next
    case False
    with Cons.prems have
      "sentence_loop e a l t ws w ss (cs @ [r]) (ct @ word_text r @ ustr '' '') = (w', ss', cs', ct')"
      unfolding loop_step by simp
    from Cons.IH [OF this] False show ?thesis
      unfolding list.map loop_step word_text_fill
      by (simp del: sentence_loop.simps)
  qed
qed

lemma process_words_fill:
  "process_words e w (map fill_defaults ws) a l t = process_words e w ws a l t"
proof -
  obtain w' ss cs ct where 1: "sentence_loop e a l t ws w [] [] [] = (w', ss, cs, ct)"
    by (metis prod_cases4)
  from loop_fill [OF 1] have
    2: "sentence_loop e a l t (map fill_defaults ws) w [] [] [] = (w', ss, map fill_defaults cs, ct)"
    by simp
  show ?thesis
    by (simp add: process_words_def 1 2 close_sentence_eq sentence_of_fill)
qed

lemma cut_point_unique: "cut_point ws k \<Longrightarrow> cut_point ws k' \<Longrightarrow> k = k'"
proof -
  assume a: "cut_point ws k" and b: "cut_point ws k'"
  have m: "\<And>j. marker_at ws j \<Longrightarrow> j < length ws" by (simp add: marker_at_def)
  show ?thesis
  proof (rule ccontr)
    assume "k \<noteq> k'"
    then consider "k < k'" | "k' < k" by linarith
    then show False
    proof cases
      case 1
      with b have "\<not> marker_at ws k" by (simp add: cut_point_def)
      with a have "k = length ws" by (simp add: cut_point_def)
      with 1 b m [of k'] show False by (auto simp: cut_point_def)
    next
      case 2
      with a have "\<not> marker_at ws k'" by (simp add: cut_point_def)
      with b have "k' = length ws" by (simp add: cut_point_def)
      with 2 a m [of k] show False by (auto simp: cut_point_def)
    qed
  qed
qed

lemma find_cut_point:
  "\<exists>r. find_generalitat (map Mapping ws) 0 = Inr r
       \<and> cut_point ws (case r of None \<Rightarrow> length ws | Some i \<Rightarrow> i)"
proof -
  from find_generalitat_first [of ws 0] obtain r where
    r: "find_generalitat (map Mapping ws) 0 = Inr r"
    and c: "case r of None \<Rightarrow> (\<forall>j. \<not> marker_at ws j)
        | Some k \<Rightarrow> 0 \<le> k \<and> marker_at ws (k - 0) \<and> (\<forall>j < k - 0. \<not> marker_at ws j)"
    by blast
  from c have "cut_point ws (case r of None \<Rightarrow> length ws | Some i \<Rightarrow> i)"
    by (cases r) (simp_all add: cut_point_def)
  with r show ?thesis by blast
qed

lemma extract_cut:
  assumes "cut_point ws k"
  shows "extract_sentences_ffmpeg e w (AList (map Mapping ws)) a l t
           = process_words e w (take k ws) a l t"
proof -
  from find_cut_point [of ws] obtain r where
    r: "find_generalitat (map Mapping ws) 0 = Inr r"
    and c: "cut_point ws (case r of None \<Rightarrow> length ws | Some i \<Rightarrow> i)"
    by blast
  from cut_point_unique [OF assms c] have k: "(case r of None \<Rightarrow> length ws | Some i \<Rightarrow> i) = k"
    by simp
  have "the_mappings (take (case r of None \<Rightarrow> length (map Mapping ws) | Some i \<Rightarrow> i)
          (map Mapping ws)) = take k ws"
    using k by (cases r) (simp_all add: the_mappings_take the_mappings_map)
  then show ?thesis
    by (simp add: extract_sentences_ffmpeg_def r Let_def del: find_generalitat.simps)
qed

lemma process_words_no_end:
  assumes "\<forall>r \<in> set ws. \<not> ends_sentence (word_text r)"
  shows "snd (process_words e w ws a l t) =
     (if ws = [] then []
      else [\<lparr>filename = segment_filename e l t 1,
             filepath = path_join (audio_output_dir e) (segment_filename e l t 1),
             transcript = strip (join_spaces (map word_text ws)),
             start_time = float_or_0 (w_start (hd ws)),
             end_time = float_or_0 (w_end (last ws))\<rparr>])"
proof (cases "ws = []")
  case True
  then show ?thesis by (simp add: process_words_def)
next
  case False
  have c: "concat (map (\<lambda>r. word_text r @ ustr '' '') ws) = join_spaces (map word_text ws) @ [32]"
    using concat_join [of "map word_text ws"] False by (simp add: comp_def ustr_space)
  show ?thesis
    using False
    by (simp add: process_words_def loop_no_end [OF assms] close_sentence_eq sentence_of_def c
        strip_append_space)
qed

lemma cut_point_found:
  "find_generalitat (map Mapping ws) 0 = Inr (Some k) \<Longrightarrow> cut_point ws k"
  using find_cut_point [of ws] by auto

lemma cut_point_hola: "cut_point hola_marker 1"
  by (rule cut_point_found)
    (simp add: hola_marker_def timed_def ustr_Nil ustr_Cons)

lemma cut_point_bon_dia: "cut_point (bon_dia @ drop 1 hola_marker) 4"
  by (rule cut_point_found)
    (simp add: bon_dia_def hola_marker_def timed_def ustr_Nil ustr_Cons)

lemma w_word_fill: "s \<noteq> [] \<Longrightarrow> (w_word (fill_defaults r) = Some s) = (w_word r = Some s)"
  by (auto simp: fill_defaults_def word_text_def split: option.splits)

lemma marker_at_fill: "marker_at (map fill_defaults ws) j = marker_at ws j"
proof -
  have n: "ustr ''Generalitat'' \<noteq> []" "ustr ''de'' \<noteq> []" "ustr ''Catalunya'' \<noteq> []"
    by (simp_all add: ustr_Cons)
  show ?thesis
    by (auto simp: marker_at_def w_word_fill [OF n(1)] w_word_fill [OF n(2)]
        w_word_fill [OF n(3)])
qed

lemma cut_point_fill: "cut_point (map fill_defaults ws) k = cut_point ws k"
  by (simp add: cut_point_def marker_at_fill)

section \<open>Properties of processing one audio file\<close>

lemma close_sentence_world:
  "fst (close_sentence e a l t w ss cs ct)
     = w\<lparr>trace := trace w @ [tool_event a (sentence_of e l t (length ss + 1) cs ct)]\<rparr>"
  by (simp add: close_sentence_eq tool_event_def)

lemma loop_world:
  "sentence_loop e a l t ws w ss cs ct = (w', ss', cs', ct') \<Longrightarrow>
   \<exists>new. ss' = ss @ new \<and> w' = w\<lparr>trace := trace w @ map (tool_event a) new\<rparr>"
proof (induction ws arbitrary: w ss cs ct)
  case Nil
  then show ?case by simp
next
  case (Cons r ws)
  show ?case
  proof (cases "ends_sentence (word_text r)")
    case True
    let ?s = "sentence_of e l t (length ss + 1) (cs @ [r]) (ct @ word_text r @ ustr '' '')"
    from Cons.prems True have
      "sentence_loop e a l t ws (w\<lparr>trace := trace w @ [tool_event a ?s]\<rparr>) (ss @ [?s]) [] []
         = (w', ss', cs', ct')"
      unfolding loop_step close_sentence_world by simp
    from Cons.IH [OF this] obtain new where
      "ss' = (ss @ [?s]) @ new"
      "w' = (w\<lparr>trace := trace w @ [tool_event a ?s]\<rparr>)
              \<lparr>trace := trace (w\<lparr>trace := trace w @ [tool_event a ?s]\<rparr>) @ map (tool_event a) new\<rparr>"
      by blast
    then have "ss' = ss @ (?s # new) \<and> w' = w\<lparr>trace := trace w @ map (tool_event a) (?s # new)\<rparr>"
      by simp
    then show ?thesis by blast
  next
    case False
    with Cons.prems have
      "sentence_loop e a l t ws w ss (cs @ [r]) (ct @ word_text r @ ustr '' '') = (w', ss', cs', ct')"
      unfolding loop_step by simp
    from Cons.IH [OF this] show ?thesis .
  qed
qed

lemma process_words_world:
  "fst (process_words e w ws a l t)
     = w\<lparr>trace := trace w @ map (tool_event a) (snd (process_words e w ws a l t))\<rparr>"
proof -
  obtain w' ss cs ct where 1: "sentence_loop e a l t ws w [] [] [] = (w', ss, cs, ct)"
    by (metis prod_cases4)
  from loop_world [OF 1] have 2: "w' = w\<lparr>trace := trace w @ map (tool_event a) ss\<rparr>"
    by simp
  show ?thesis
    by (simp add: process_words_def 1 close_sentence_eq close_sentence_world 2 tool_event_def)
qed

lemma extract_world:
  "fst (extract_sentences_ffmpeg e w ar a l t)
     = w\<lparr>trace := trace w @ map (tool_event a) (snd (extract_sentences_ffmpeg e w ar a l t))\<rparr>"
proof (cases ar)
  case (AList xs)
  show ?thesis
  proof (cases "find_generalitat xs 0")
    case (Inl x)
    with AList show ?thesis by (simp add: extract_sentences_ffmpeg_def)
  next
    case (Inr r)
    with AList show ?thesis
      using process_words_world
      by (simp add: extract_sentences_ffmpeg_def Let_def)
  qed
qed (simp_all add: extract_sentences_ffmpeg_def)

lemma extract_ffmpeg:
  "snd (extract_sentences_ffmpeg (e\<lparr>ffmpeg := f\<rparr>) v ar a l t)
     = snd (extract_sentences_ffmpeg e w ar a l t)"
proof (cases ar)
  case (AList xs)
  show ?thesis
  proof (cases "find_generalitat xs 0")
    case (Inl x)
    with AList show ?thesis by (simp add: extract_sentences_ffmpeg_def)
  next
    case (Inr r)
    with AList show ?thesis
      using process_words_ffmpeg
      by (simp add: extract_sentences_ffmpeg_def Let_def)
  qed
qed (simp_all add: extract_sentences_ffmpeg_def)

lemma get_transcript_ffmpeg: "get_transcript (e\<lparr>ffmpeg := f\<rparr>) w tt tp = get_transcript e w tt tp"
  by (simp add: get_transcript_def cong: option.case_cong if_cong)

lemma align_ffmpeg: "align_and_dump (e\<lparr>ffmpeg := f\<rparr>) w a x = align_and_dump e w a x"
  by (simp add: align_and_dump_def Let_def
      cong: option.case_cong sum.case_cong write_outcome.case_cong)

lemma save_manifest:
  "manifest (fst (save_segments_to_csv e w ss)) = manifest w @ written_rows e (rows_of ss)"
  by (simp add: save_segments_to_csv_def rows_of_def written_rows_def Let_def)

lemma segment_ok_shape:
  assumes "get_transcript e w tt tp = Inr text"
    and "align_and_dump e w audio (text @ ustr '' Generalitat de Catalunya'') = (w1, Inr ar)"
  shows "segment_audio_file e w audio tt tp l t =
     (fst (save_segments_to_csv e
        (w1\<lparr>trace := trace w1 @ map (tool_event audio) (snd (extract_sentences_ffmpeg e w1 ar audio l t))\<rparr>)
        (snd (extract_sentences_ffmpeg e w1 ar audio l t))), True)"
proof -
  obtain w2 ss where x: "extract_sentences_ffmpeg e w1 ar audio l t = (w2, ss)"
    by (cases "extract_sentences_ffmpeg e w1 ar audio l t")
  from extract_world [of e w1 ar audio l t] x
  have w2: "w2 = w1\<lparr>trace := trace w1 @ map (tool_event audio) ss\<rparr>" by simp
  show ?thesis
    using assms x w2 by (simp add: segment_audio_file_def split: prod.splits)
qed

lemma align_shape:
  assumes "align_and_dump e w audio x = (w1, res)"
  shows "(w1 = w\<lparr>trace := trace w @ [EvApiCall audio x]\<rparr> \<and> (\<exists>f. res = Inl f))
     \<or> (\<exists>resp. replicate_run e audio x = Some resp \<and> resp \<noteq> RespOther
            \<and> resp \<noteq> RespDict None
            \<and> w1 = w\<lparr>files := insert (alignment_file_of audio) (files w),
                     trace := trace w @ [EvApiCall audio x,
                       EvWriteAlignment (alignment_file_of audio)]\<rparr>
            \<and> (res = Inl WriteFailed \<or> (\<exists>ar. res = Inr ar)))"
  using assms
  by (auto simp: align_and_dump_def Let_def
      split: option.splits api_response.splits alignment.splits write_outcome.splits)

lemma save_world:
  "fst (save_segments_to_csv e w ss)
     = w\<lparr>manifest := manifest w @ written_rows e (rows_of ss),
         trace := trace w @ (if csv_append_ok e \<or> written_rows e (rows_of ss) \<noteq> []
                             then [EvCsvAppend (written_rows e (rows_of ss))] else [])\<rparr>"
  by (simp add: save_segments_to_csv_def rows_of_def written_rows_def Let_def)

lemma save_flag: "snd (save_segments_to_csv e w ss) = csv_append_ok e"
  by (simp add: save_segments_to_csv_def Let_def)

lemma align_manifest:
  assumes "align_and_dump e w audio x = (w1, res)"
  shows "manifest w1 = manifest w"
  using align_shape [OF assms] by auto

lemma segment_result:
  assumes "get_transcript e w tt tp = Inr c"
    and "align_and_dump e w audio (c @ ustr '' Generalitat de Catalunya'') = (w1, Inr ar)"
  shows "segment_audio_file e w audio tt tp l t =
     (w1\<lparr>manifest := manifest w
                        @ written_rows e (rows_of (snd (extract_sentences_ffmpeg e w1 ar audio l t))),
         trace := trace w1
                    @ item_events e audio (snd (extract_sentences_ffmpeg e w1 ar audio l t))\<rparr>,
      True)"
  unfolding segment_ok_shape [OF assms] save_world
  by (simp add: item_events_def align_manifest [OF assms(2)])


lemma clean_bon_dia: "clean_transcript (ustr ''Bon dia.'') = ustr ''Bon dia.''"
  by (simp add: clean_transcript_def ustr_Nil ustr_Cons is_space_def strip_def)

lemma example_marker: "alignment_file_of example_audio = ustr ''b1/t/t_rapid.mp3_alignment.json''"
  by (simp add: alignment_file_of_def example_audio_def dirname_def basename_def path_join_def
      startswith_def endswith_def ustr_Nil ustr_Cons)

lemma example_align:
  "align_and_dump (example_env\<lparr>csv_append_ok := b\<rparr>) empty_world example_audio x
     = (\<lparr>files = {ustr ''b1/t/t_rapid.mp3_alignment.json''}, manifest = [],
         trace = [EvApiCall example_audio x,
                  EvWriteAlignment (ustr ''b1/t/t_rapid.mp3_alignment.json'')]\<rparr>,
        Inr (AList (map Mapping (bon_dia @ drop 1 hola_marker))))"
  by (simp add: align_and_dump_def example_env_def empty_world_def example_marker Let_def)

lemma example_sentences:
  "snd (extract_sentences_ffmpeg (example_env\<lparr>csv_append_ok := b\<rparr>) w
          (AList (map Mapping (bon_dia @ drop 1 hola_marker))) example_audio (ustr ''b1'')
          (ustr ''t''))
     = [\<lparr>filename = ustr ''b1_t_sentence1.mp3'', filepath = ustr ''out/b1_t_sentence1.mp3'',
         transcript = ustr ''Bon dia.'', start_time = 0, end_time = 1\<rparr>,
        \<lparr>filename = ustr ''b1_t_sentence2.mp3'', filepath = ustr ''out/b1_t_sentence2.mp3'',
         transcript = ustr ''Ad'' @ [233] @ ustr ''u amic.'', start_time = 1, end_time = 2\<rparr>]"
proof -
  have t: "take 4 (bon_dia @ drop 1 hola_marker) = bon_dia"
    by (simp add: bon_dia_def)
  show ?thesis
    unfolding extract_cut [OF cut_point_bon_dia] t
    by (simp add: bon_dia_def timed_def ustr_Nil ustr_Cons
      process_words_def close_sentence_eq sentence_of_def ends_sentence_def endswith_def
      word_text_def float_or_0_def strip_def is_space_def segment_filename_def
      decimal.simps sanitize_def example_env_def path_join_def startswith_def)
qed

lemma example_transcript:
  "get_transcript e w (Some (ustr ''Bon dia.'')) None = Inr (ustr ''Bon dia.'')"
  by (simp add: get_transcript_def clean_bon_dia) (simp add: ustr_Cons)

lemma example_run:
  "segment_audio_file (example_env\<lparr>csv_append_ok := b\<rparr>) empty_world example_audio
     (Some (ustr ''Bon dia.'')) None (ustr ''b1'') (ustr ''t'')
   = (\<lparr>files = {ustr ''b1/t/t_rapid.mp3_alignment.json''},
       manifest =
         (if b then [(ustr ''b1_t_sentence1.mp3'', ustr ''Bon dia.''),
                     (ustr ''b1_t_sentence2.mp3'', ustr ''Ad'' @ [233] @ ustr ''u amic.'')]
          else []),
       trace =
         [EvApiCall example_audio (ustr ''Bon dia. Generalitat de Catalunya''),
          EvWriteAlignment (ustr ''b1/t/t_rapid.mp3_alignment.json''),
          EvTool example_audio (ustr ''out/b1_t_sentence1.mp3'') 0 1,
          EvTool example_audio (ustr ''out/b1_t_sentence2.mp3'') 1 1]
         @ (if b then [EvCsvAppend
                        [(ustr ''b1_t_sentence1.mp3'', ustr ''Bon dia.''),
                         (ustr ''b1_t_sentence2.mp3'', ustr ''Ad'' @ [233] @ ustr ''u amic.'')]]
            else [])\<rparr>, True)"
  unfolding segment_ok_shape [OF example_transcript example_align] example_sentences
  by (simp add: save_world written_rows_def tool_event_def rows_of_def example_env_def
      ustr_Nil ustr_Cons)

section \<open>Properties of the walker\<close>

lemma scan_audio_files_eq:
  "scan_audio_files e listing =
     (if \<exists>g \<in> set listing. endswith g (ustr ''.mp3'') \<and> is_rapid e g
      then filter (\<lambda>f. endswith f (ustr ''.mp3'') \<and> is_rapid e f) listing
      else filter (\<lambda>f. endswith f (ustr ''.mp3'') \<and> \<not> is_rapid e f) listing)"
  by (simp add: scan_audio_files_def Let_def filter_empty_conv) blast

text \<open>A failed item leaves the count as it is and the loop goes on.\<close>

lemma scan_topic_failed:
  assumes "find_work_item e level_dir tpc w = Inr (Some (audio_path, transcript_path))"
    and "segment_audio_file e w audio_path None (Some transcript_path) level (t_name tpc)
           = (w', False)"
  shows "scan_topic e only_one level level_dir tpc (w, n) = Next (w', n)"
  using assms by (simp add: scan_topic_def)

text \<open>An item reported as processed ends the run in the bounded mode.\<close>

lemma scan_topic_processed:
  assumes "find_work_item e level_dir tpc w = Inr (Some (audio_path, transcript_path))"
    and "segment_audio_file e w audio_path None (Some transcript_path) level (t_name tpc)
           = (w', True)"
  shows "scan_topics e True level level_dir (tpc # ts) (w, n) = Return (w', n + 1)"
  using assms by (simp add: scan_topic_def)

text \<open>A topic directory that cannot be listed ends the loops with the exception.\<close>

lemma scan_listing_raises:
  assumes "t_isdir tpc" "\<not> startswith (t_name tpc) (ustr ''.'')" "t_listing tpc = None"
  shows "scan_topics e only_one level level_dir (tpc # ts) st = Raise OSError st"
  using assms by (cases st) (simp add: scan_topic_def find_work_item_def Let_def)

lemma item_s:
  "find_work_item e (ustr ''d/b1'') topic_s corpus_world
     = Inr (Some (ustr ''d/b1/s/s_rapid.mp3'', ustr ''d/b1/s/s.txt''))"
  by (simp add: find_work_item_def topic_s_def corpus_world_def scan_audio_files_def
      is_rapid_def lower_def ascii_lower_def startswith_def endswith_def path_join_def
      is_done_def ustr_Nil ustr_Cons Let_def)

lemma transcript_s:
  "get_transcript flaky_env corpus_world None (Some (ustr ''d/b1/s/s.txt''))
     = Inr (ustr ''Bon dia.'')"
  by (simp add: get_transcript_def flaky_env_def example_env_def corpus_world_def clean_bon_dia)
    (simp add: ustr_Nil ustr_Cons)

lemma run_s:
  "segment_audio_file flaky_env corpus_world (ustr ''d/b1/s/s_rapid.mp3'') None
     (Some (ustr ''d/b1/s/s.txt'')) (ustr ''b1'') (t_name topic_s) = (world_after_s, False)"
  by (simp add: segment_audio_file_def transcript_s align_and_dump_def Let_def)
    (simp add: flaky_env_def world_after_s_def corpus_world_def ustr_Nil ustr_Cons)

lemma marker_s:
  "alignment_file_of (ustr ''d/b1/s/s_rapid.mp3'') = ustr ''d/b1/s/s_rapid.mp3_alignment.json''"
  by (simp add: alignment_file_of_def dirname_def basename_def path_join_def
      startswith_def endswith_def ustr_Nil ustr_Cons)

lemma transcript_broken:
  "get_transcript broken_env corpus_world None (Some (ustr ''d/b1/s/s.txt''))
     = Inr (ustr ''Bon dia.'')"
  by (simp add: get_transcript_def broken_env_def example_env_def corpus_world_def clean_bon_dia)
    (simp add: ustr_Nil ustr_Cons)

lemma align_broken:
  "align_and_dump broken_env corpus_world (ustr ''d/b1/s/s_rapid.mp3'') x
     = (\<lparr>files = {ustr ''d/b1/s/s_rapid.mp3_alignment.json'', ustr ''d/b1/s/s.txt'',
                  ustr ''d/b1/t/t.txt''},
         manifest = [],
         trace = [EvApiCall (ustr ''d/b1/s/s_rapid.mp3'') x,
                  EvWriteAlignment (ustr ''d/b1/s/s_rapid.mp3_alignment.json'')]\<rparr>,
        Inr (AList [NotMapping]))"
  by (simp add: align_and_dump_def broken_env_def example_env_def corpus_world_def marker_s
      Let_def)

lemma run_broken:
  "segment_audio_file broken_env corpus_world (ustr ''d/b1/s/s_rapid.mp3'') None
     (Some (ustr ''d/b1/s/s.txt'')) (ustr ''b1'') (t_name topic_s)
   = (\<lparr>files = {ustr ''d/b1/s/s_rapid.mp3_alignment.json'', ustr ''d/b1/s/s.txt'',
                ustr ''d/b1/t/t.txt''},
       manifest = [],
       trace = [EvApiCall (ustr ''d/b1/s/s_rapid.mp3'') (ustr ''Bon dia. Generalitat de Catalunya''),
                EvWriteAlignment (ustr ''d/b1/s/s_rapid.mp3_alignment.json''),
                EvCsvAppend []]\<rparr>, True)"
proof -
  have x: "\<And>w. extract_sentences_ffmpeg broken_env w (AList [NotMapping])
        (ustr ''d/b1/s/s_rapid.mp3'') (ustr ''b1'') (t_name topic_s) = (w, [])"
    by (simp add: extract_sentences_ffmpeg_def)
  have c: "csv_append_ok broken_env" by (simp add: broken_env_def example_env_def)
  show ?thesis
    unfolding segment_ok_shape [OF transcript_broken align_broken] x
    by (simp add: save_world written_rows_def c rows_of_def ustr_Nil ustr_Cons)
qed

lemma corpus_level:
  "path_join (ustr ''d'') (ustr ''b1'') = ustr ''d/b1''"
  "\<not> startswith (ustr ''b1'') (ustr ''.'')"
  by (simp_all add: path_join_def startswith_def endswith_def ustr_Nil ustr_Cons)

text \<open>The topic of the index: the choice of audio files and the processing of the first.\<close>

lemma index_rapid:
  "is_rapid e (ustr ''d/rapid/c_lent.mp3'')" "is_rapid e (ustr ''d/rapid/c_rapid.mp3'')"
  "\<not> is_rapid e (ustr ''c_lent.mp3'')" "is_rapid e (ustr ''c_rapid.mp3'')"
  "\<not> is_rapid e (ustr ''c.txt'')"
  by (simp_all add: is_rapid_def lower_def ascii_lower_def startswith_def ustr_Nil ustr_Cons)

lemma index_mp3:
  "endswith (ustr ''c_lent.mp3'') (ustr ''.mp3'')" "endswith (ustr ''c_rapid.mp3'') (ustr ''.mp3'')"
  "\<not> endswith (ustr ''c.txt'') (ustr ''.mp3'')"
  by (simp_all add: endswith_def ustr_Nil ustr_Cons)

lemma index_files:
  "master_audio_files e index_world (Some index_entries) (ustr ''d/rapid'') listing
     = Inr [ustr ''d/rapid/c_lent.mp3'', ustr ''d/rapid/c_rapid.mp3'']"
  by (simp add: master_audio_files_def index_world_def index_entries_def index_rapid Let_def)

lemma index_fallback:
  "master_audio_files e index_world None (ustr ''d/rapid'') (Some index_listing)
     = Inr [ustr ''d/rapid/c_rapid.mp3'']"
proof -
  have p: "path_join (ustr ''d/rapid'') (ustr ''c_rapid.mp3'') = ustr ''d/rapid/c_rapid.mp3''"
    by (simp add: path_join_def startswith_def endswith_def ustr_Nil ustr_Cons)
  show ?thesis
    by (simp add: master_audio_files_def index_listing_def index_rapid index_mp3 p Let_def)
qed

lemma index_scan:
  "scan_audio_files e index_listing = [ustr ''c_rapid.mp3'']"
  by (simp add: scan_audio_files_def index_listing_def index_rapid index_mp3 Let_def)

lemma transcript_index:
  "get_transcript example_env index_world None (Some (ustr ''d/rapid/c.txt''))
     = Inr (ustr ''Bon dia.'')"
  by (simp add: get_transcript_def example_env_def index_world_def clean_bon_dia)
    (simp add: ustr_Nil ustr_Cons)

lemma marker_lent:
  "alignment_file_of (ustr ''d/rapid/c_lent.mp3'') = ustr ''d/rapid/c_lent.mp3_alignment.json''"
  by (simp add: alignment_file_of_def dirname_def basename_def path_join_def
      startswith_def endswith_def ustr_Nil ustr_Cons)

lemma align_lent:
  "align_and_dump example_env index_world (ustr ''d/rapid/c_lent.mp3'') x
     = (\<lparr>files = {ustr ''d/rapid/c_lent.mp3_alignment.json'', ustr ''d/rapid/c.txt'',
                  ustr ''d/rapid/c_lent.mp3'', ustr ''d/rapid/c_rapid.mp3''},
         manifest = [],
         trace = [EvApiCall (ustr ''d/rapid/c_lent.mp3'') x,
                  EvWriteAlignment (ustr ''d/rapid/c_lent.mp3_alignment.json'')]\<rparr>,
        Inr (AList (map Mapping (bon_dia @ drop 1 hola_marker))))"
  by (simp add: align_and_dump_def example_env_def index_world_def marker_lent Let_def)

lemma index_sentences:
  "snd (extract_sentences_ffmpeg example_env w
          (AList (map Mapping (bon_dia @ drop 1 hola_marker))) audio (ustr ''b1'') (ustr ''c''))
     = [\<lparr>filename = ustr ''b1_c_sentence1.mp3'', filepath = ustr ''out/b1_c_sentence1.mp3'',
         transcript = ustr ''Bon dia.'', start_time = 0, end_time = 1\<rparr>,
        \<lparr>filename = ustr ''b1_c_sentence2.mp3'', filepath = ustr ''out/b1_c_sentence2.mp3'',
         transcript = ustr ''Ad'' @ [233] @ ustr ''u amic.'', start_time = 1, end_time = 2\<rparr>]"
proof -
  have t: "take 4 (bon_dia @ drop 1 hola_marker) = bon_dia"
    by (simp add: bon_dia_def)
  show ?thesis
    unfolding extract_cut [OF cut_point_bon_dia] t
    by (simp add: bon_dia_def timed_def ustr_Nil ustr_Cons
      process_words_def close_sentence_eq sentence_of_def ends_sentence_def endswith_def
      word_text_def float_or_0_def strip_def is_space_def segment_filename_def
      decimal.simps sanitize_def example_env_def path_join_def startswith_def)
qed

lemma run_lent:
  "segment_audio_file example_env index_world (ustr ''d/rapid/c_lent.mp3'') None
     (Some (ustr ''d/rapid/c.txt'')) (ustr ''b1'') (ustr ''c'')
   = (\<lparr>files = {ustr ''d/rapid/c_lent.mp3_alignment.json'', ustr ''d/rapid/c.txt'',
                ustr ''d/rapid/c_lent.mp3'', ustr ''d/rapid/c_rapid.mp3''},
       manifest = [(ustr ''b1_c_sentence1.mp3'', ustr ''Bon dia.''),
                   (ustr ''b1_c_sentence2.mp3'', ustr ''Ad'' @ [233] @ ustr ''u amic.'')],
       trace =
         [EvApiCall (ustr ''d/rapid/c_lent.mp3'') (ustr ''Bon dia. Generalitat de Catalunya''),
          EvWriteAlignment (ustr ''d/rapid/c_lent.mp3_alignment.json''),
          EvTool (ustr ''d/rapid/c_lent.mp3'') (ustr ''out/b1_c_sentence1.mp3'') 0 1,
          EvTool (ustr ''d/rapid/c_lent.mp3'') (ustr ''out/b1_c_sentence2.mp3'') 1 1,
          EvCsvAppend
            [(ustr ''b1_c_sentence1.mp3'', ustr ''Bon dia.''),
             (ustr ''b1_c_sentence2.mp3'', ustr ''Ad'' @ [233] @ ustr ''u amic.'')]]\<rparr>, True)"
  unfolding segment_ok_shape [OF transcript_index align_lent] index_sentences
  by (simp add: save_world written_rows_def tool_event_def rows_of_def example_env_def
      ustr_Nil ustr_Cons)

lemma lent_not_done: "\<not> is_done index_world (ustr ''d/rapid/c_lent.mp3'')"
  by (simp add: is_done_def index_world_def ustr_Nil ustr_Cons)

section \<open>Properties of transcript cleaning\<close>

lemma label_here_rel:
  "label_here ci label z = (length label \<le> length z \<and> list_all2 (rel_of ci) label (take (length label) z))"
  by (simp add: label_here_def rel_of_def)

lemma nl_space: "is_space 10"
  by (simp add: is_space_def)

lemma rel_not_space: "rel_of ci p c \<Longrightarrow> \<not> is_space p \<Longrightarrow> \<not> is_space c"
  by (auto simp: rel_of_def ci_eq_def ascii_lower_def is_space_def split: if_splits)

lemma resub_no_nl: "10 \<notin> set s \<Longrightarrow> re_sub_attribution sw ci label s = s"
  by (induction s) auto

lemma resub_prefix:
  "(\<forall>a b. x = a @ 10 # b \<longrightarrow> \<not> attribution_match sw ci label (b @ y)) \<Longrightarrow>
   re_sub_attribution sw ci label (x @ y) = x @ re_sub_attribution sw ci label y"
proof (induction x)
  case Nil
  then show ?case by simp
next
  case (Cons c x)
  have 1: "\<forall>a b. x = a @ 10 # b \<longrightarrow> \<not> attribution_match sw ci label (b @ y)"
  proof (intro allI impI)
    fix a b assume "x = a @ 10 # b"
    then have "c # x = (c # a) @ 10 # b" by simp
    with Cons.prems show "\<not> attribution_match sw ci label (b @ y)" by blast
  qed
  have 2: "c = 10 \<Longrightarrow> \<not> attribution_match sw ci label (x @ y)"
    using Cons.prems [rule_format, of "[]" x] by simp
  from Cons.IH [OF 1] 2 show ?case by auto
qed

lemma resub_change:
  "re_sub_attribution sw ci label s = s
   \<or> (\<exists>body z. s = body @ 10 # z \<and> attribution_match sw ci label z
         \<and> re_sub_attribution sw ci label s
              = body @ (if z \<noteq> [] \<and> last z = 10 then [10] else []))"
proof (induction s)
  case Nil
  then show ?case by simp
next
  case (Cons c s)
  show ?case
  proof (cases "c = 10 \<and> attribution_match sw ci label s")
    case True
    then have "c # s = [] @ 10 # s \<and> attribution_match sw ci label s
        \<and> re_sub_attribution sw ci label (c # s)
              = [] @ (if s \<noteq> [] \<and> last s = 10 then [10] else [])"
      by simp
    then show ?thesis by blast
  next
    case False
    then have r: "re_sub_attribution sw ci label (c # s) = c # re_sub_attribution sw ci label s"
      by auto
    from Cons.IH show ?thesis
    proof
      assume "re_sub_attribution sw ci label s = s"
      with r show ?thesis by simp
    next
      assume "\<exists>body z. s = body @ 10 # z \<and> attribution_match sw ci label z
         \<and> re_sub_attribution sw ci label s
              = body @ (if z \<noteq> [] \<and> last z = 10 then [10] else [])"
      then obtain body z where "s = body @ 10 # z" "attribution_match sw ci label z"
        "re_sub_attribution sw ci label s = body @ (if z \<noteq> [] \<and> last z = 10 then [10] else [])"
        by blast
      with r have "c # s = (c # body) @ 10 # z \<and> attribution_match sw ci label z
         \<and> re_sub_attribution sw ci label (c # s)
              = (c # body) @ (if z \<noteq> [] \<and> last z = 10 then [10] else [])"
        by simp
      then show ?thesis by blast
    qed
  qed
qed

lemma match_shape:
  assumes "attribution_match sw ci label z"
  shows "\<exists>ws lab t. z = ws @ lab @ t \<and> (\<forall>c \<in> set ws. is_space c)
           \<and> list_all2 (rel_of ci) label lab \<and> 10 \<notin> set (butlast t)"
proof -
  let ?z = "if sw then dropWhile is_space z else z"
  let ?ws = "if sw then takeWhile is_space z else []"
  from assms have l: "label_here ci label ?z" and t: "tail_ok (drop (length label) ?z)"
    by (simp_all add: attribution_match_def Let_def)
  have "z = ?ws @ take (length label) ?z @ drop (length label) ?z" by simp
  moreover have "\<forall>c \<in> set ?ws. is_space c" by (auto dest: set_takeWhileD)
  moreover from l have "list_all2 (rel_of ci) label (take (length label) ?z)"
    by (simp add: label_here_rel)
  moreover from t have "10 \<notin> set (butlast (drop (length label) ?z))"
    by (simp add: tail_ok_def)
  ultimately show ?thesis by blast
qed

lemma no_match_across_nl:
  assumes "\<forall>p \<in> set label. \<not> is_space p" "r \<noteq> []"
  shows "\<not> (label_here ci label (y @ 10 # r) \<and> tail_ok (drop (length label) (y @ 10 # r)))"
proof (cases "length label \<le> length y")
  case True
  then have "drop (length label) (y @ 10 # r) = drop (length label) y @ 10 # r" by simp
  moreover have "butlast (drop (length label) y @ 10 # r) = drop (length label) y @ 10 # butlast r"
    using assms(2) by (simp add: butlast_append)
  ultimately show ?thesis by (simp add: tail_ok_def)
next
  case False
  then have lt: "length y < length label" by simp
  show ?thesis
  proof
    assume "label_here ci label (y @ 10 # r) \<and> tail_ok (drop (length label) (y @ 10 # r))"
    then have la: "list_all2 (rel_of ci) label (take (length label) (y @ 10 # r))"
      by (simp add: label_here_rel)
    from lt have "take (length label) (y @ 10 # r) ! length y = 10"
      by (simp add: nth_append)
    with list_all2_nthD [OF la lt] have "rel_of ci (label ! length y) 10" by simp
    moreover from lt assms(1) have "\<not> is_space (label ! length y)" by simp
    ultimately show False using rel_not_space nl_space by blast
  qed
qed

lemma no_match_plain:
  assumes "\<forall>p \<in> set label. \<not> is_space p" "r \<noteq> []"
  shows "\<not> attribution_match False ci label (b @ 10 # r)"
  using no_match_across_nl [OF assms, of ci b] by (simp add: attribution_match_def)

lemma no_match_skip:
  assumes "\<forall>p \<in> set label. \<not> is_space p" "r \<noteq> []" "\<exists>c \<in> set b. \<not> is_space c"
  shows "\<not> attribution_match True ci label (b @ 10 # r)"
proof -
  from assms(3) obtain c where "c \<in> set b" "\<not> is_space c" by blast
  then have "dropWhile is_space (b @ 10 # r) = dropWhile is_space b @ 10 # r"
    by (rule dropWhile_append1)
  with no_match_across_nl [OF assms(1,2), of ci "dropWhile is_space b"] show ?thesis
    by (simp add: attribution_match_def)
qed

lemma no_match_other_label:
  assumes "\<forall>c \<in> set ws. is_space c" "lab \<noteq> []" "\<not> is_space (hd lab)"
    and "label \<noteq> []" "\<not> is_space (hd label)" "\<not> rel_of ci (hd label) (hd lab)"
  shows "\<not> attribution_match sw ci label (ws @ lab @ t)"
proof
  assume m: "attribution_match sw ci label (ws @ lab @ t)"
  let ?z = "if sw then dropWhile is_space (ws @ lab @ t) else ws @ lab @ t"
  from m have "label_here ci label ?z" by (simp add: attribution_match_def Let_def)
  then have len: "length label \<le> length ?z"
    and la: "list_all2 (rel_of ci) label (take (length label) ?z)"
    by (simp_all add: label_here_rel)
  have z: "?z \<noteq> []"
  proof
    assume e: "?z = []"
    have "length ?z = 0" unfolding e by simp
    with len assms(4) show False by simp
  qed
  from assms(4) have "0 < length label" by simp
  from list_all2_nthD [OF la this] assms(4) z
  have h: "rel_of ci (hd label) (hd ?z)"
    by (simp add: hd_conv_nth)
  have dl: "dropWhile is_space (lab @ t) = lab @ t"
    using assms(2,3) by (cases lab) auto
  have dw: "dropWhile is_space (ws @ lab @ t) = lab @ t"
    using assms(1) dl by (simp add: dropWhile_append2)
  show False
  proof (cases sw)
    case True
    with h dw assms(2,6) show False by simp
  next
    case False
    show False
    proof (cases ws)
      case Nil
      with False h assms(2,6) show False by simp
    next
      case (Cons c ws')
      with False h have "rel_of ci (hd label) c" by simp
      moreover from Cons assms(1) have "is_space c" by simp
      ultimately show False using rel_not_space assms(5) by blast
    qed
  qed
qed

lemma resub_other_label:
  assumes "\<forall>c \<in> set ws. is_space c" "lab \<noteq> []" "\<not> is_space (hd lab)"
    and "label \<noteq> []" "\<not> is_space (hd label)" "\<not> rel_of ci (hd label) (hd lab)"
    and "10 \<notin> set (lab @ t)"
  shows "re_sub_attribution sw ci label (ws @ lab @ t) = ws @ lab @ t"
  using assms(1)
proof (induction ws)
  case Nil
  from resub_no_nl [OF assms(7)] show ?case by simp
next
  case (Cons c ws)
  then have "\<forall>c \<in> set ws. is_space c" by simp
  from no_match_other_label [OF this assms(2-6)] Cons show ?case by simp
qed

lemma lab_not_space:
  assumes "list_all2 (rel_of ci) label lab" "\<forall>p \<in> set label. \<not> is_space p"
  shows "\<forall>c \<in> set lab. \<not> is_space c"
proof
  fix c assume "c \<in> set lab"
  then obtain i where i: "i < length lab" "lab ! i = c" by (auto simp: in_set_conv_nth)
  from assms(1) have l: "length label = length lab" by (rule list_all2_lengthD)
  with i have il: "i < length label" by simp
  from list_all2_nthD [OF assms(1) il] i have "rel_of ci (label ! i) c" by simp
  moreover from il assms(2) have "\<not> is_space (label ! i)" by simp
  ultimately show "\<not> is_space c" by (rule rel_not_space)
qed

lemma match_here:
  assumes "list_all2 (rel_of ci) label lab" "\<forall>p \<in> set label. \<not> is_space p" "label \<noteq> []"
    and "\<forall>c \<in> set ws. is_space c" "sw \<or> ws = []" "10 \<notin> set t"
  shows "attribution_match sw ci label (ws @ lab @ t)"
proof -
  from assms(1) have l: "length label = length lab" by (rule list_all2_lengthD)
  with assms(3) have ne: "lab \<noteq> []" by auto
  from lab_not_space [OF assms(1,2)] ne have "\<not> is_space (hd lab)" by simp
  with ne have dl: "dropWhile is_space (lab @ t) = lab @ t" by (cases lab) auto
  have dw: "dropWhile is_space (ws @ lab @ t) = lab @ t"
    using assms(4) dl by (simp add: dropWhile_append2)
  have z: "(if sw then dropWhile is_space (ws @ lab @ t) else ws @ lab @ t) = lab @ t"
    using dw assms(5) by auto
  have t: "tail_ok t" using assms(6) by (auto simp: tail_ok_def dest: in_set_butlastD)
  show ?thesis
    unfolding attribution_match_def Let_def z
    using assms(1) l t by (simp add: label_here_rel)
qed

lemma trailing:
  assumes "body = [] \<or> \<not> is_space (last body)" "body = a @ 10 # b"
  shows "\<exists>c \<in> set b. \<not> is_space c"
proof -
  from assms have n: "\<not> is_space (last body)" by simp
  have "b \<noteq> []"
  proof
    assume "b = []"
    with assms(2) have "last body = 10" by simp
    with n nl_space show False by simp
  qed
  with assms(2) have "last body = last b" "last b \<in> set b" by simp_all
  with n show ?thesis by auto
qed

lemma last_not_nl:
  assumes "lab \<noteq> []" "\<forall>c \<in> set lab. \<not> is_space c" "10 \<notin> set t"
  shows "last (ws @ lab @ t) \<noteq> 10"
proof (cases "t = []")
  case True
  with assms(1) have "last (ws @ lab @ t) = last lab" "last lab \<in> set lab" by simp_all
  with assms(2) nl_space show ?thesis by auto
next
  case False
  then have "last (ws @ lab @ t) = last t" "last t \<in> set t" by simp_all
  with assms(3) show ?thesis by auto
qed

lemma remove_last_line:
  assumes "list_all2 (rel_of ci) label lab" "\<forall>p \<in> set label. \<not> is_space p" "label \<noteq> []"
    and "\<forall>c \<in> set ws. is_space c" "sw \<or> ws = []" "10 \<notin> set t"
    and "sw \<longrightarrow> body = [] \<or> \<not> is_space (last body)"
  shows "re_sub_attribution sw ci label (body @ 10 # ws @ lab @ t) = body"
proof -
  let ?r = "ws @ lab @ t"
  from assms(1) have l: "length label = length lab" by (rule list_all2_lengthD)
  with assms(3) have ne: "lab \<noteq> []" by auto
  then have rne: "?r \<noteq> []" by simp
  have nm: "\<forall>a b. body = a @ 10 # b \<longrightarrow> \<not> attribution_match sw ci label (b @ 10 # ?r)"
  proof (intro allI impI)
    fix a b assume b: "body = a @ 10 # b"
    show "\<not> attribution_match sw ci label (b @ 10 # ?r)"
    proof (cases sw)
      case False
      with no_match_plain [OF assms(2) rne] show ?thesis by simp
    next
      case True
      from trailing [OF _ b] True assms(7) have "\<exists>c \<in> set b. \<not> is_space c" by simp
      from no_match_skip [OF assms(2) rne this] True show ?thesis by simp
    qed
  qed
  have lastr: "last ?r \<noteq> 10"
    by (rule last_not_nl [OF ne lab_not_space [OF assms(1,2)] assms(6)])
  have "re_sub_attribution sw ci label (body @ 10 # ?r)
      = body @ re_sub_attribution sw ci label (10 # ?r)"
    by (rule resub_prefix [OF nm])
  also have "re_sub_attribution sw ci label (10 # ?r) = []"
    using match_here [OF assms(1-6)] lastr by simp
  finally show ?thesis by simp
qed

lemma keep_other_label:
  assumes "\<forall>p \<in> set label. \<not> is_space p" "label \<noteq> []"
    and "\<forall>c \<in> set ws. is_space c" "lab \<noteq> []" "\<forall>c \<in> set lab. \<not> is_space c"
    and "\<not> rel_of ci (hd label) (hd lab)" "10 \<notin> set t"
    and "sw \<longrightarrow> body = [] \<or> \<not> is_space (last body)"
  shows "re_sub_attribution sw ci label (body @ 10 # ws @ lab @ t) = body @ 10 # ws @ lab @ t"
proof -
  let ?r = "ws @ lab @ t"
  from assms(4) have rne: "?r \<noteq> []" by simp
  have nm: "\<forall>a b. body = a @ 10 # b \<longrightarrow> \<not> attribution_match sw ci label (b @ 10 # ?r)"
  proof (intro allI impI)
    fix a b assume b: "body = a @ 10 # b"
    show "\<not> attribution_match sw ci label (b @ 10 # ?r)"
    proof (cases sw)
      case False
      with no_match_plain [OF assms(1) rne] show ?thesis by simp
    next
      case True
      from trailing [OF _ b] True assms(8) have "\<exists>c \<in> set b. \<not> is_space c" by simp
      from no_match_skip [OF assms(1) rne this] True show ?thesis by simp
    qed
  qed
  have ws': "\<forall>c \<in> set (10 # ws). is_space c" using assms(3) nl_space by simp
  have hl: "\<not> is_space (hd lab)" "\<not> is_space (hd label)"
    using assms(1,2,4,5) by simp_all
  have nl: "10 \<notin> set (lab @ t)" using assms(5,7) nl_space by auto
  have "re_sub_attribution sw ci label (body @ 10 # ?r)
      = body @ re_sub_attribution sw ci label (10 # ?r)"
    by (rule resub_prefix [OF nm])
  also have "re_sub_attribution sw ci label (10 # ?r) = 10 # ?r"
    using resub_other_label [OF ws' assms(4) hl(1) assms(2) hl(2) assms(6) nl, of sw] by simp
  finally show ?thesis by simp
qed

lemma ss_cons:
  "single_spaced (a # y) = ((y = [] \<or> \<not> (is_space a \<and> is_space (hd y))) \<and> single_spaced y)"
  by (cases y) auto

lemma cw_space: "\<forall>c \<in> set (collapse_ws s). is_space c \<longrightarrow> c = 32"
  by (induction s rule: collapse_ws.induct) auto

lemma cw_hd: "s \<noteq> [] \<Longrightarrow> \<not> is_space (hd s) \<Longrightarrow> collapse_ws s \<noteq> [] \<and> hd (collapse_ws s) = hd s"
  by (cases s) auto

lemma cw_after_run:
  "collapse_ws (dropWhile is_space cs) = []
   \<or> \<not> is_space (hd (collapse_ws (dropWhile is_space cs)))"
proof (cases "dropWhile is_space cs = []")
  case True
  have "collapse_ws (dropWhile is_space cs) = []" unfolding True by simp
  then show ?thesis by blast
next
  case False
  then have "\<not> is_space (hd (dropWhile is_space cs))" by (rule hd_dropWhile)
  with cw_hd [OF False] show ?thesis by simp
qed

lemma cw_single: "single_spaced (collapse_ws s)"
proof (induction s rule: collapse_ws.induct)
  case 1
  then show ?case by simp
next
  case (2 c cs)
  show ?case
  proof (cases "is_space c")
    case True
    with 2 have "single_spaced (collapse_ws (dropWhile is_space cs))" by simp
    with cw_after_run [of cs] True show ?thesis by (auto simp: ss_cons)
  next
    case False
    with 2 have "single_spaced (collapse_ws cs)" by simp
    with False show ?thesis by (simp add: ss_cons)
  qed
qed

lemma ss_tl: "single_spaced (a # y) \<Longrightarrow> single_spaced y"
  by (simp add: ss_cons)

lemma ss_dropWhile: "single_spaced s \<Longrightarrow> single_spaced (dropWhile P s)"
  by (induction s) (auto dest: ss_tl)

lemma ss_take: "single_spaced s \<Longrightarrow> single_spaced (take n s)"
proof (induction s arbitrary: n)
  case Nil
  then show ?case by simp
next
  case (Cons a y)
  show ?case
  proof (cases n)
    case 0
    then show ?thesis by simp
  next
    case (Suc m)
    from Cons.prems have y: "single_spaced y" by (rule ss_tl)
    have "take m y = [] \<or> hd (take m y) = hd y" by (cases m; cases y) auto
    with Cons.prems Cons.IH [OF y, of m] Suc show ?thesis
      by (auto simp: ss_cons)
  qed
qed

lemma strip_take: "\<exists>k. strip s = take k (dropWhile is_space s)"
proof -
  let ?x = "dropWhile is_space s"
  have "rev (dropWhile is_space (rev ?x))
      = rev (drop (length (takeWhile is_space (rev ?x))) (rev ?x))"
    by (simp only: dropWhile_eq_drop)
  also have "\<dots> = take (length ?x - length (takeWhile is_space (rev ?x))) ?x"
    by (simp add: rev_drop)
  finally show ?thesis unfolding strip_def by blast
qed

lemma strip_single: "single_spaced s \<Longrightarrow> single_spaced (strip s)"
proof -
  assume a: "single_spaced s"
  from strip_take [of s] obtain k where k: "strip s = take k (dropWhile is_space s)" by blast
  from a show ?thesis unfolding k by (intro ss_take ss_dropWhile)
qed

lemma strip_subset: "set (strip s) \<subseteq> set s"
proof -
  from strip_take [of s] obtain k where k: "strip s = take k (dropWhile is_space s)" by blast
  have "set (take k (dropWhile is_space s)) \<subseteq> set (dropWhile is_space s)"
    by (rule set_take_subset)
  also have "\<dots> \<subseteq> set s" by (auto dest: set_dropWhileD)
  finally show ?thesis unfolding k .
qed

lemma strip_ends:
  assumes "strip s \<noteq> []"
  shows "\<not> is_space (hd (strip s)) \<and> \<not> is_space (last (strip s))"
proof -
  let ?x = "dropWhile is_space s"
  from assms have d: "dropWhile is_space (rev ?x) \<noteq> []" by (simp add: strip_def)
  have "last (strip s) = hd (dropWhile is_space (rev ?x))"
    by (simp add: strip_def last_rev)
  with hd_dropWhile [OF d] have l: "\<not> is_space (last (strip s))" by simp
  from strip_take [of s] obtain k where k: "strip s = take k ?x" by blast
  with assms have "?x \<noteq> []" "k \<noteq> 0" by auto
  then have "hd (take k ?x) = hd ?x" by (cases k; cases ?x) auto
  with hd_dropWhile [OF \<open>?x \<noteq> []\<close>] k have "\<not> is_space (hd (strip s))" by simp
  with l show ?thesis by simp
qed

lemma clean_steps:
  "clean_transcript raw =
     strip (collapse_ws (map (\<lambda>c. if c = 10 then 32 else c)
       (re_sub_attribution True True (ustr ''source:'')
         (re_sub_attribution True True (ustr ''author:'')
           (re_sub_attribution False False (ustr ''Text:'') raw)))))"
  by (simp add: clean_transcript_def Let_def)

lemma clean_normal_form:
  "(\<forall>c \<in> set (clean_transcript raw). is_space c \<longrightarrow> c = 32)
   \<and> single_spaced (clean_transcript raw)
   \<and> (clean_transcript raw \<noteq> [] \<longrightarrow>
        \<not> is_space (hd (clean_transcript raw)) \<and> \<not> is_space (last (clean_transcript raw)))"
  unfolding clean_steps
  using cw_space strip_subset strip_single [OF cw_single] strip_ends
  by blast

lemma label_chars:
  "\<forall>p \<in> set (ustr ''Text:''). \<not> is_space p" "ustr ''Text:'' \<noteq> []"
  "\<forall>p \<in> set (ustr ''author:''). \<not> is_space p" "ustr ''author:'' \<noteq> []"
  "\<forall>p \<in> set (ustr ''source:''). \<not> is_space p" "ustr ''source:'' \<noteq> []"
  by (simp_all add: ustr_Nil ustr_Cons is_space_def)

lemma label_heads:
  "hd (ustr ''Text:'') = 84" "hd (ustr ''author:'') = 97" "hd (ustr ''source:'') = 115"
  by (simp_all add: ustr_Cons)

lemma matched_head:
  assumes "list_all2 ci_eq label lab" "label \<noteq> []"
  shows "lab \<noteq> [] \<and> ci_eq (hd label) (hd lab)"
  using assms by (cases label; cases lab) auto

lemma ci_heads:
  "ci_eq 97 c \<Longrightarrow> c \<noteq> 84" "ci_eq 115 c \<Longrightarrow> c \<noteq> 84" "ci_eq 115 c \<Longrightarrow> \<not> ci_eq 97 c"
  by (auto simp: ci_eq_def ascii_lower_def split: if_splits)

lemma rel_of_simps: "rel_of True = ci_eq" "rel_of False = (=)"
  by (simp_all add: rel_of_def)

lemma text_is_ci: "list_all2 ci_eq (ustr ''text:'') (ustr ''Text:'')"
  by (simp add: ustr_Nil ustr_Cons ci_eq_def ascii_lower_def)

lemma text_removed:
  assumes "10 \<notin> set t"
  shows "re_sub_attribution False False (ustr ''Text:'') (body @ [10] @ ustr ''Text:'' @ t) = body"
proof -
  have l: "list_all2 (rel_of False) (ustr ''Text:'') (ustr ''Text:'')"
    by (simp add: rel_of_simps list_all2_eq [symmetric])
  from remove_last_line [OF l label_chars(1,2), of "[]" False t body] assms
  show ?thesis by simp
qed

lemma author_kept_by_text:
  assumes "\<forall>c \<in> set ws. is_space c" "list_all2 ci_eq label lab" "10 \<notin> set t"
    and "label = ustr ''author:'' \<or> label = ustr ''source:''"
  shows "re_sub_attribution False False (ustr ''Text:'') (body @ [10] @ ws @ lab @ t)
           = body @ [10] @ ws @ lab @ t"
proof -
  from assms(4) label_chars have lc: "\<forall>p \<in> set label. \<not> is_space p" "label \<noteq> []" by auto
  from matched_head [OF assms(2) lc(2)] have ne: "lab \<noteq> []" and h: "ci_eq (hd label) (hd lab)"
    by simp_all
  from assms(2) have "list_all2 (rel_of True) label lab" by (simp add: rel_of_simps)
  from lab_not_space [OF this lc(1)] have ls: "\<forall>c \<in> set lab. \<not> is_space c" .
  have "hd lab \<noteq> 84"
  proof (cases "label = ustr ''author:''")
    case True
    with h have "ci_eq 97 (hd lab)" by (simp add: label_heads)
    then show ?thesis by (rule ci_heads(1))
  next
    case False
    with assms(4) h have "ci_eq 115 (hd lab)" by (simp add: label_heads)
    then show ?thesis by (rule ci_heads(2))
  qed
  then have nr: "\<not> rel_of False (hd (ustr ''Text:'')) (hd lab)"
    by (simp add: rel_of_simps label_heads)
  from keep_other_label [OF label_chars(1,2) assms(1) ne ls nr assms(3), of False body]
  show ?thesis by simp
qed

lemma source_kept_by_author:
  assumes "\<forall>c \<in> set ws. is_space c" "list_all2 ci_eq (ustr ''source:'') lab" "10 \<notin> set t"
    and "body = [] \<or> \<not> is_space (last body)"
  shows "re_sub_attribution True True (ustr ''author:'') (body @ [10] @ ws @ lab @ t)
           = body @ [10] @ ws @ lab @ t"
proof -
  from matched_head [OF assms(2) label_chars(6)] have ne: "lab \<noteq> []"
    and h: "ci_eq 115 (hd lab)" by (simp_all add: label_heads)
  from assms(2) have "list_all2 (rel_of True) (ustr ''source:'') lab" by (simp add: rel_of_simps)
  from lab_not_space [OF this label_chars(5)] have ls: "\<forall>c \<in> set lab. \<not> is_space c" .
  from h have nr: "\<not> rel_of True (hd (ustr ''author:'')) (hd lab)"
    by (simp add: rel_of_simps label_heads ci_heads(3))
  from keep_other_label [OF label_chars(3,4) assms(1) ne ls nr assms(3), of True body] assms(4)
  show ?thesis by simp
qed

lemma ci_removed:
  assumes "\<forall>c \<in> set ws. is_space c" "list_all2 ci_eq label lab" "10 \<notin> set t"
    and "body = [] \<or> \<not> is_space (last body)"
    and "label = ustr ''author:'' \<or> label = ustr ''source:''"
  shows "re_sub_attribution True True label (body @ [10] @ ws @ lab @ t) = body"
proof -
  from assms(5) label_chars have lc: "\<forall>p \<in> set label. \<not> is_space p" "label \<noteq> []" by auto
  from assms(2) have l: "list_all2 (rel_of True) label lab" by (simp add: rel_of_simps)
  from remove_last_line [OF l lc assms(1) _ assms(3), of True body] assms(4)
  show ?thesis by simp
qed

lemma clean_hola: "clean_transcript (ustr ''Hola'') = ustr ''Hola''"
  by (simp add: clean_transcript_def ustr_Nil ustr_Cons is_space_def strip_def)

text \<open>The last three steps of cleaning split the text at whitespace and join the pieces.\<close>

lemma strip_space_cons: "is_space c \<Longrightarrow> strip (c # s) = strip s"
  by (simp add: strip_def)

lemma cw_drop: "strip (collapse_ws s) = strip (collapse_ws (dropWhile is_space s))"
proof (cases s)
  case Nil
  then show ?thesis by simp
next
  case (Cons c cs)
  show ?thesis
  proof (cases "is_space c")
    case True
    with Cons show ?thesis by (simp add: strip_space_cons space32)
  next
    case False
    with Cons show ?thesis by simp
  qed
qed

lemma cw_word: "\<forall>c \<in> set w. \<not> is_space c \<Longrightarrow> collapse_ws (w @ r) = w @ collapse_ws r"
  by (induction w) auto

lemma strip_word:
  assumes "w \<noteq> []" "\<forall>c \<in> set w. \<not> is_space c"
  shows "strip (w @ y) = w @ rev (dropWhile is_space (rev y))"
proof -
  from assms have h: "\<not> is_space (hd w)" by (cases w) auto
  with assms(1) have 1: "dropWhile is_space (w @ y) = w @ y" by (cases w) auto
  from assms have l: "\<not> is_space (last w)" by (simp add: last_in_set)
  with assms(1) have 2: "dropWhile is_space (rev w) = rev w"
    by (cases w rule: rev_cases) auto
  show ?thesis
    unfolding strip_def 1
    by (simp add: dropWhile_append 2)
qed

lemma rstrip_space_cons:
  "rev (dropWhile is_space (rev (32 # y)))
     = (if rev (dropWhile is_space (rev y)) = [] then [] else 32 # rev (dropWhile is_space (rev y)))"
  by (simp add: dropWhile_append space32)

lemma rstrip_collapse:
  assumes "r = [] \<or> is_space (hd r)"
  shows "rev (dropWhile is_space (rev (collapse_ws r)))
     = (if strip (collapse_ws r) = [] then [] else 32 # strip (collapse_ws r))"
proof (cases r)
  case Nil
  then show ?thesis by (simp add: strip_def)
next
  case (Cons c cs)
  with assms have c: "is_space c" by simp
  let ?y = "collapse_ws (dropWhile is_space cs)"
  from c Cons have r: "collapse_ws r = 32 # ?y" by simp
  from cw_after_run [of cs] have "dropWhile is_space ?y = ?y"
    by (cases ?y) auto
  then have s: "strip ?y = rev (dropWhile is_space (rev ?y))" by (simp add: strip_def)
  have "strip (collapse_ws r) = strip ?y"
    unfolding r by (simp add: strip_space_cons space32)
  then show ?thesis
    unfolding r rstrip_space_cons s by simp
qed

lemma finish_word:
  assumes "x \<noteq> []" "\<not> is_space (hd x)"
  shows "strip (collapse_ws x)
     = (if strip (collapse_ws (dropWhile (\<lambda>c. \<not> is_space c) x)) = []
        then takeWhile (\<lambda>c. \<not> is_space c) x
        else takeWhile (\<lambda>c. \<not> is_space c) x
               @ 32 # strip (collapse_ws (dropWhile (\<lambda>c. \<not> is_space c) x)))"
proof -
  let ?w = "takeWhile (\<lambda>c. \<not> is_space c) x"
  let ?r = "dropWhile (\<lambda>c. \<not> is_space c) x"
  have x: "x = ?w @ ?r" by simp
  from assms have wn: "?w \<noteq> []" by (cases x) auto
  have wa: "\<forall>c \<in> set ?w. \<not> is_space c" by (auto dest: set_takeWhileD)
  have rr: "?r = [] \<or> is_space (hd ?r)"
    using hd_dropWhile [of "\<lambda>c. \<not> is_space c" x] by auto
  have "strip (collapse_ws x) = strip (collapse_ws (?w @ ?r))" by simp
  also have "\<dots> = strip (?w @ collapse_ws ?r)" by (simp only: cw_word [OF wa])
  also have "\<dots> = ?w @ rev (dropWhile is_space (rev (collapse_ws ?r)))"
    by (rule strip_word [OF wn wa])
  finally show ?thesis
    unfolding rstrip_collapse [OF rr] by simp
qed

lemma split_ws_eq:
  "split_ws s =
     (if dropWhile is_space s = [] then []
      else takeWhile (\<lambda>c. \<not> is_space c) (dropWhile is_space s)
             # split_ws (dropWhile (\<lambda>c. \<not> is_space c) (dropWhile is_space s)))"
  by (subst split_ws.simps) (simp add: Let_def)

lemma split_no_empty: "[] \<notin> set (split_ws s)"
proof (induction s rule: split_ws.induct)
  case (1 s)
  show ?case
  proof (cases "dropWhile is_space s = []")
    case True
    then show ?thesis by (subst split_ws_eq) simp
  next
    case False
    then have "\<not> is_space (hd (dropWhile is_space s))" by (rule hd_dropWhile)
    with False have "takeWhile (\<lambda>c. \<not> is_space c) (dropWhile is_space s) \<noteq> []"
      by (cases "dropWhile is_space s") auto
    with 1 [OF refl False] False show ?thesis
      by (subst split_ws_eq) simp
  qed
qed

lemma join_cons:
  "join_spaces (w # xs) = (if xs = [] then w else w @ 32 # join_spaces xs)"
  by (cases xs) (simp_all add: ustr_space)

lemma join_nil: "[] \<notin> set xs \<Longrightarrow> (join_spaces xs = []) = (xs = [])"
  by (cases xs) (auto simp: join_cons)

lemma finish_split: "strip (collapse_ws s) = join_spaces (split_ws s)"
proof (induction s rule: split_ws.induct)
  case (1 s)
  let ?x = "dropWhile is_space s"
  show ?case
  proof (cases "?x = []")
    case True
    have "strip (collapse_ws s) = []"
      unfolding cw_drop [of s] True by (simp add: strip_def)
    moreover have "split_ws s = []" using True by (subst split_ws_eq) simp
    ultimately show ?thesis by simp
  next
    case False
    then have h: "\<not> is_space (hd ?x)" by (rule hd_dropWhile)
    let ?w = "takeWhile (\<lambda>c. \<not> is_space c) ?x"
    let ?r = "dropWhile (\<lambda>c. \<not> is_space c) ?x"
    from 1 [OF refl False] have ih: "strip (collapse_ws ?r) = join_spaces (split_ws ?r)" .
    have sp: "split_ws s = ?w # split_ws ?r" using False by (subst split_ws_eq) simp
    have "strip (collapse_ws s) = strip (collapse_ws ?x)" by (rule cw_drop)
    also have "\<dots> = (if strip (collapse_ws ?r) = [] then ?w
                      else ?w @ 32 # strip (collapse_ws ?r))"
      by (rule finish_word [OF False h])
    also have "\<dots> = join_spaces (?w # split_ws ?r)"
      unfolding ih join_cons using join_nil [OF split_no_empty, of ?r] by simp
    finally show ?thesis unfolding sp .
  qed
qed

lemma nl_to_space_keeps:
  "is_space (if c = 10 then 32 else c) = is_space c"
  by (simp add: is_space_def)

lemma split_map: "split_ws (map (\<lambda>c. if c = 10 then 32 else c) s) = split_ws s"
proof (induction s rule: split_ws.induct)
  case (1 s)
  let ?f = "\<lambda>c::nat. if c = 10 then 32 else c"
  let ?x = "dropWhile is_space s"
  have d: "\<And>u. dropWhile is_space (map ?f u) = map ?f (dropWhile is_space u)"
    by (simp add: dropWhile_map comp_def nl_to_space_keeps)
  have d': "\<And>u. dropWhile (\<lambda>c. \<not> is_space c) (map ?f u)
        = map ?f (dropWhile (\<lambda>c. \<not> is_space c) u)"
    by (simp add: dropWhile_map comp_def nl_to_space_keeps)
  have t': "\<And>u. takeWhile (\<lambda>c. \<not> is_space c) (map ?f u)
        = map ?f (takeWhile (\<lambda>c. \<not> is_space c) u)"
    by (simp add: takeWhile_map comp_def nl_to_space_keeps)
  have w: "\<And>u. map ?f (takeWhile (\<lambda>c. \<not> is_space c) u) = takeWhile (\<lambda>c. \<not> is_space c) u"
  proof -
    fix u :: pystr
    have "\<forall>c \<in> set (takeWhile (\<lambda>c. \<not> is_space c) u). ?f c = c"
      using nl_space by (auto dest: set_takeWhileD)
    then show "map ?f (takeWhile (\<lambda>c. \<not> is_space c) u) = takeWhile (\<lambda>c. \<not> is_space c) u"
      by (simp add: map_idI)
  qed
  show ?case
  proof (cases "?x = []")
    case True
    then show ?thesis
      by (subst split_ws_eq, subst (2) split_ws_eq) (simp add: d)
  next
    case False
    from 1 [OF refl False]
    have ih: "split_ws (map ?f (dropWhile (\<lambda>c. \<not> is_space c) ?x))
        = split_ws (dropWhile (\<lambda>c. \<not> is_space c) ?x)" .
    show ?thesis
      using False
      by (subst split_ws_eq, subst (2) split_ws_eq) (simp add: d d' t' w ih)
  qed
qed

lemma clean_split:
  "clean_transcript raw =
     join_spaces (split_ws
       (re_sub_attribution True True (ustr ''source:'')
         (re_sub_attribution True True (ustr ''author:'')
           (re_sub_attribution False False (ustr ''Text:'') raw))))"
  unfolding clean_steps finish_split split_map ..

text \<open>What one removal does, by the shape of the end of the text.\<close>

lemma no_match_ws:
  assumes "\<forall>p \<in> set label. \<not> is_space p" "label \<noteq> []" "\<forall>c \<in> set z. is_space c"
  shows "\<not> attribution_match sw ci label z"
proof
  assume "attribution_match sw ci label z"
  from match_shape [OF this] obtain ws lab t where
    z: "z = ws @ lab @ t" and la: "list_all2 (rel_of ci) label lab" by blast
  from la assms(2) have "lab \<noteq> []" by auto
  moreover from lab_not_space [OF la assms(1)] have "\<forall>c \<in> set lab. \<not> is_space c" .
  ultimately obtain c where "c \<in> set lab" "\<not> is_space c" by (cases lab) auto
  with z assms(3) show False by auto
qed

lemma match_ws_prefix:
  assumes "\<forall>c \<in> set b. is_space c"
  shows "attribution_match True ci label (b @ 10 # z) = attribution_match True ci label z"
  using assms by (simp add: attribution_match_def dropWhile_append nl_space)

lemma label_here_nl:
  assumes "\<forall>p \<in> set label. \<not> is_space p"
  shows "label_here ci label (y @ [10]) = label_here ci label y"
proof (cases "length label \<le> length y")
  case True
  then show ?thesis by (simp add: label_here_def)
next
  case False
  then have lt: "length y < length label" by simp
  have "\<not> label_here ci label (y @ [10])"
  proof
    assume "label_here ci label (y @ [10])"
    then have la: "list_all2 (rel_of ci) label (take (length label) (y @ [10]))"
      by (simp add: label_here_rel)
    from lt have "take (length label) (y @ [10]) ! length y = 10"
      by (simp add: nth_append)
    with list_all2_nthD [OF la lt] have "rel_of ci (label ! length y) 10" by simp
    moreover from lt assms have "\<not> is_space (label ! length y)" by simp
    ultimately show False using rel_not_space nl_space by blast
  qed
  moreover from False have "\<not> label_here ci label y" by (simp add: label_here_def)
  ultimately show ?thesis by simp
qed

lemma match_line_aux:
  assumes "\<forall>p \<in> set label. \<not> is_space p" "10 \<notin> set y" "nl = [] \<or> nl = [10]"
  shows "(label_here ci label (y @ nl) \<and> tail_ok (drop (length label) (y @ nl)))
           = label_here ci label y"
proof -
  have t: "length label \<le> length y \<Longrightarrow> tail_ok (drop (length label) (y @ nl))"
  proof -
    assume le: "length label \<le> length y"
    have "10 \<notin> set (drop (length label) y)"
      using assms(2) by (auto dest: in_set_dropD)
    moreover have "10 \<notin> set (butlast (drop (length label) y))"
      using assms(2) by (auto dest: in_set_dropD in_set_butlastD)
    ultimately show ?thesis
      using assms(3) le by (auto simp: tail_ok_def)
  qed
  have l: "label_here ci label (y @ nl) = label_here ci label y"
    using assms(3) label_here_nl [OF assms(1)] by auto
  show ?thesis
    unfolding l using t by (auto simp: label_here_def)
qed

lemma match_line:
  assumes "\<forall>p \<in> set label. \<not> is_space p" "label \<noteq> []" "10 \<notin> set line"
    and "nl = [] \<or> nl = [10]"
  shows "attribution_match sw ci label (line @ nl) = line_has_label sw ci label line"
proof (cases sw)
  case False
  with match_line_aux [OF assms(1,3,4), of ci] show ?thesis
    by (simp add: attribution_match_def line_has_label_def)
next
  case True
  show ?thesis
  proof (cases "\<forall>c \<in> set line. is_space c")
    case all: True
    then have "\<forall>c \<in> set (line @ nl). is_space c" using assms(4) nl_space by auto
    from no_match_ws [OF assms(1,2) this]
    have "\<not> attribution_match sw ci label (line @ nl)" .
    moreover have "\<not> line_has_label sw ci label line"
    proof -
      from all have d: "dropWhile is_space line = []" by simp
      have "\<not> label_here ci label []" using assms(2) by (simp add: label_here_def)
      then show ?thesis unfolding line_has_label_def d using True by simp
    qed
    ultimately show ?thesis by simp
  next
    case False
    then obtain x where "x \<in> set line" "\<not> is_space x" by blast
    then have d: "dropWhile is_space (line @ nl) = dropWhile is_space line @ nl"
      by (rule dropWhile_append1)
    have n: "10 \<notin> set (dropWhile is_space line)"
      using assms(3) by (auto dest: set_dropWhileD)
    from match_line_aux [OF assms(1) n assms(4), of ci] True show ?thesis
      by (simp add: attribution_match_def line_has_label_def d)
  qed
qed

lemma resub_tail:
  assumes "\<forall>p \<in> set label. \<not> is_space p" "label \<noteq> []" "10 \<notin> set line"
    and "nl = [] \<or> nl = [10]"
  shows "re_sub_attribution sw ci label (line @ nl) = line @ nl"
proof -
  have "\<forall>a b. line = a @ 10 # b \<longrightarrow> \<not> attribution_match sw ci label (b @ nl)"
    using assms(3) by auto
  from resub_prefix [OF this]
  have 1: "re_sub_attribution sw ci label (line @ nl) = line @ re_sub_attribution sw ci label nl" .
  have "\<not> attribution_match sw ci label []"
    by (rule no_match_ws [OF assms(1,2)]) simp
  with assms(4) have "re_sub_attribution sw ci label nl = nl" by auto
  with 1 show ?thesis by simp
qed

lemma before_last_line:
  assumes "\<forall>p \<in> set label. \<not> is_space p" "label \<noteq> []" "10 \<notin> set line" "line \<noteq> []"
    and "nl = [] \<or> nl = [10]" "sw \<longrightarrow> \<not> line_has_label sw ci label line"
  shows "\<not> attribution_match sw ci label (b @ 10 # line @ nl)"
proof (cases sw)
  case False
  from assms(4) have "line @ nl \<noteq> []" by simp
  from no_match_plain [OF assms(1) this, of ci b] False show ?thesis by simp
next
  case True
  from assms(4) have r: "line @ nl \<noteq> []" by simp
  show ?thesis
  proof (cases "\<forall>c \<in> set b. is_space c")
    case all: True
    from match_ws_prefix [OF all, of ci label "line @ nl"]
      match_line [OF assms(1,2,3,5), of sw ci] True assms(6)
    show ?thesis by simp
  next
    case False
    then have "\<exists>c \<in> set b. \<not> is_space c" by blast
    from no_match_skip [OF assms(1) r this, of ci] True show ?thesis by simp
  qed
qed

lemma resub_head:
  assumes "attribution_match sw ci label (line @ nl)" "10 \<notin> set line" "line \<noteq> []"
    and "nl = [] \<or> nl = [10]"
  shows "re_sub_attribution sw ci label (10 # line @ nl) = nl"
proof -
  from assms(2,3) have "last line \<noteq> 10" using last_in_set by metis
  with assms show ?thesis by auto
qed

lemma resub_last_line_kept:
  assumes "\<forall>p \<in> set label. \<not> is_space p" "label \<noteq> []" "10 \<notin> set line" "line \<noteq> []"
    and "nl = [] \<or> nl = [10]" "\<not> line_has_label sw ci label line"
  shows "re_sub_attribution sw ci label (body @ [10] @ line @ nl) = body @ [10] @ line @ nl"
proof -
  have "\<forall>a b. body = a @ 10 # b \<longrightarrow> \<not> attribution_match sw ci label (b @ 10 # line @ nl)"
    using before_last_line [OF assms(1,2,3,4,5)] assms(6) by blast
  from resub_prefix [OF this]
  have 1: "re_sub_attribution sw ci label (body @ 10 # line @ nl)
      = body @ re_sub_attribution sw ci label (10 # line @ nl)" .
  from match_line [OF assms(1,2,3,5), of sw ci] assms(6)
  have "\<not> attribution_match sw ci label (line @ nl)" by simp
  then have "re_sub_attribution sw ci label (10 # line @ nl)
      = 10 # re_sub_attribution sw ci label (line @ nl)" by simp
  with 1 resub_tail [OF assms(1,2,3,5), of sw ci] show ?thesis by simp
qed

lemma resub_last_line_plain:
  assumes "\<forall>p \<in> set label. \<not> is_space p" "label \<noteq> []" "10 \<notin> set line" "line \<noteq> []"
    and "nl = [] \<or> nl = [10]" "line_has_label False ci label line"
  shows "re_sub_attribution False ci label (body @ [10] @ line @ nl) = body @ nl"
proof -
  have "\<forall>a b. body = a @ 10 # b \<longrightarrow> \<not> attribution_match False ci label (b @ 10 # line @ nl)"
    using before_last_line [OF assms(1,2,3,4,5), of False ci] by blast
  from resub_prefix [OF this]
  have 1: "re_sub_attribution False ci label (body @ 10 # line @ nl)
      = body @ re_sub_attribution False ci label (10 # line @ nl)" .
  from match_line [OF assms(1,2,3,5), of False ci] assms(6)
  have "attribution_match False ci label (line @ nl)" by simp
  from resub_head [OF this assms(3,4,5)] 1 show ?thesis by simp
qed

lemma trailing_run:
  assumes "u = [] \<or> \<not> is_space (last u)" "10 \<notin> set v1" "u @ v1 = a @ 10 # b"
  shows "\<exists>c \<in> set b. \<not> is_space c"
proof (rule ccontr)
  assume "\<not> (\<exists>c \<in> set b. \<not> is_space c)"
  then have b: "\<forall>c \<in> set (rev b). is_space c" by simp
  have "takeWhile is_space (rev (a @ 10 # b)) = rev b @ 10 # takeWhile is_space (rev a)"
    using b by (simp add: takeWhile_append nl_space)
  then have 1: "10 \<in> set (takeWhile is_space (rev (u @ v1)))"
    unfolding assms(3) by simp
  have "takeWhile is_space (rev u) = []"
    using assms(1) by (cases u rule: rev_cases) auto
  then have "set (takeWhile is_space (rev (u @ v1))) \<subseteq> set v1"
    by (auto simp: takeWhile_append dest: set_takeWhileD split: if_splits)
  with 1 assms(2) show False by blast
qed

lemma resub_last_line_skip:
  assumes "\<forall>p \<in> set label. \<not> is_space p" "label \<noteq> []" "10 \<notin> set line" "line \<noteq> []"
    and "nl = [] \<or> nl = [10]" "line_has_label True ci label line"
  shows "re_sub_attribution True ci label (body @ [10] @ line @ nl) = cut_before True body @ nl"
proof -
  let ?v = "rev (takeWhile is_space (rev body))"
  let ?u = "rev (dropWhile is_space (rev body))"
  let ?v1 = "takeWhile (\<lambda>c. c \<noteq> 10) ?v"
  let ?v2 = "dropWhile (\<lambda>c. c \<noteq> 10) ?v"
  have "?u @ ?v = rev (takeWhile is_space (rev body) @ dropWhile is_space (rev body))"
    by (simp only: rev_append)
  also have "\<dots> = body" by (simp only: takeWhile_dropWhile_id rev_rev_ident)
  finally have uv: "?u @ ?v = body" .
  have vv: "?v1 @ ?v2 = ?v" by (rule takeWhile_dropWhile_id)
  have body: "body = ?u @ ?v1 @ ?v2" by (simp only: vv uv)
  have va: "\<forall>c \<in> set ?v. is_space c" by (auto dest: set_takeWhileD)
  then have v2a: "\<forall>c \<in> set ?v2. is_space c" by (auto dest: set_dropWhileD)
  have u: "?u = [] \<or> \<not> is_space (last ?u)"
    using hd_dropWhile [of is_space "rev body"] by (auto simp: last_rev)
  have v1: "10 \<notin> set ?v1" by (auto dest: set_takeWhileD)
  have r: "line @ nl \<noteq> []" using assms(4) by simp
  have m: "attribution_match True ci label (line @ nl)"
    using match_line [OF assms(1,2,3,5), of True ci] assms(6) by simp
  have p: "\<forall>a b. ?u @ ?v1 = a @ 10 # b
      \<longrightarrow> \<not> attribution_match True ci label (b @ (?v2 @ 10 # line @ nl))"
  proof (intro allI impI)
    fix a b assume "?u @ ?v1 = a @ 10 # b"
    from trailing_run [OF u v1 this] have "\<exists>c \<in> set (b @ ?v2). \<not> is_space c" by auto
    from no_match_skip [OF assms(1) r this, of ci]
    show "\<not> attribution_match True ci label (b @ (?v2 @ 10 # line @ nl))" by simp
  qed
  from resub_prefix [OF p]
  have 1: "re_sub_attribution True ci label ((?u @ ?v1) @ (?v2 @ 10 # line @ nl))
      = (?u @ ?v1) @ re_sub_attribution True ci label (?v2 @ 10 # line @ nl)" .
  have 2: "re_sub_attribution True ci label (?v2 @ 10 # line @ nl) = nl"
  proof (cases ?v2)
    case Nil
    show ?thesis unfolding Nil using resub_head [OF m assms(3,4,5)] by simp
  next
    case (Cons c v2')
    with hd_dropWhile [of "\<lambda>c. c \<noteq> 10" ?v] have c: "c = 10" by auto
    from Cons v2a have "\<forall>c \<in> set v2'. is_space c" by simp
    from match_ws_prefix [OF this, of ci label "line @ nl"] m
    have m': "attribution_match True ci label (v2' @ 10 # line @ nl)" by simp
    from assms(3,4) have "last line \<noteq> 10" using last_in_set by metis
    with assms(4,5) have "last (v2' @ 10 # line @ nl) = 10 \<longleftrightarrow> nl = [10]" by auto
    with m' c Cons assms(5) show ?thesis by auto
  qed
  have "body @ [10] @ line @ nl = (?u @ ?v1) @ (?v2 @ 10 # line @ nl)"
    using body by simp
  then have "re_sub_attribution True ci label (body @ [10] @ line @ nl)
      = re_sub_attribution True ci label ((?u @ ?v1) @ (?v2 @ 10 # line @ nl))"
    by (rule arg_cong)
  also note 1
  also note 2
  finally show ?thesis by (simp add: cut_before_def)
qed

lemma resub_last_line:
  assumes "\<forall>p \<in> set label. \<not> is_space p" "label \<noteq> []" "10 \<notin> set line" "line \<noteq> []"
    and "nl = [] \<or> nl = [10]"
  shows "re_sub_attribution sw ci label (body @ [10] @ line @ nl)
     = (if line_has_label sw ci label line then cut_before sw body @ nl
        else body @ [10] @ line @ nl)"
proof (cases "line_has_label sw ci label line")
  case False
  with resub_last_line_kept [OF assms this] show ?thesis by simp
next
  case True
  show ?thesis
  proof (cases sw)
    case sw: True
    with True resub_last_line_skip [OF assms, of ci body] show ?thesis by simp
  next
    case sw: False
    with True resub_last_line_plain [OF assms, of ci body] show ?thesis
      by (simp add: cut_before_def)
  qed
qed

lemma resub_blank_end:
  assumes "\<forall>p \<in> set label. \<not> is_space p" "label \<noteq> []"
  shows "re_sub_attribution sw ci label (body @ [10, 10]) = body @ [10, 10]"
proof -
  have p: "\<forall>a b. body = a @ 10 # b \<longrightarrow> \<not> attribution_match sw ci label (b @ [10, 10])"
  proof (intro allI impI)
    fix a b
    show "\<not> attribution_match sw ci label (b @ [10, 10])"
    proof (cases "\<forall>c \<in> set b. is_space c")
      case True
      then have "\<forall>c \<in> set (b @ [10, 10]). is_space c" using nl_space by auto
      from no_match_ws [OF assms this] show ?thesis .
    next
      case False
      then have e: "\<exists>c \<in> set b. \<not> is_space c" by blast
      have r: "[10::nat] \<noteq> []" by simp
      show ?thesis
      proof (cases sw)
        case True
        with no_match_skip [OF assms(1) r e, of ci] show ?thesis by simp
      next
        case False
        with no_match_plain [OF assms(1) r, of ci b] show ?thesis by simp
      qed
    qed
  qed
  from resub_prefix [OF p]
  have 1: "re_sub_attribution sw ci label (body @ [10, 10])
      = body @ re_sub_attribution sw ci label [10, 10]" .
  have "\<not> attribution_match sw ci label [10]" "\<not> attribution_match sw ci label []"
    using no_match_ws [OF assms, of "[10]" sw ci] no_match_ws [OF assms, of "[]" sw ci] nl_space
    by simp_all
  then have "re_sub_attribution sw ci label [10, 10] = [10, 10]" by simp
  with 1 show ?thesis by simp
qed

lemma removals_labels:
  assumes "(sw, ci, label) \<in> set removals"
  shows "\<forall>p \<in> set label. \<not> is_space p" "label \<noteq> []"
  using assms label_chars by (auto simp: removals_def)

lemma clean_kept:
  assumes "10 \<notin> set line" "line \<noteq> []" "nl = [] \<or> nl = [10]"
    and "\<not> line_has_label False False (ustr ''Text:'') line"
    and "\<not> line_has_label True True (ustr ''author:'') line"
    and "\<not> line_has_label True True (ustr ''source:'') line"
  shows "clean_transcript (body @ [10] @ line @ nl)
     = join_spaces (split_ws (body @ [10] @ line @ nl))"
  unfolding clean_split
    resub_last_line_kept [OF label_chars(1,2) assms(1,2,3,4)]
    resub_last_line_kept [OF label_chars(3,4) assms(1,2,3,5)]
    resub_last_line_kept [OF label_chars(5,6) assms(1,2,3,6)] ..

lemma clean_no_nl:
  assumes "10 \<notin> set raw"
  shows "clean_transcript raw = join_spaces (split_ws raw)"
  unfolding clean_split using assms by (simp add: resub_no_nl)

lemma eval_split: "join_spaces (split_ws (ustr ''Bon  dia.'' @ [10] @ ustr ''Source'' @ []))
   = ustr ''Bon dia. Source''"
  by (simp add: split_ws_eq is_space_def ustr_Nil ustr_Cons)

section \<open>Results on sentence extraction\<close>

text \<open>
  C6.  On the four timed words Bon (0 to 0.5), dia. (0.5 to 1), Ad\<^verbatim>\<open>e\<close>u with U+00E9 (1 to
  1.5) and amic. (1.5 to 2), extraction returns exactly two sentences: the first numbered 1
  with the text \<^verbatim>\<open>Bon dia.\<close> from 0 to 1, the second numbered 2 with the text made of
  the third and fourth word from 1 to 2.  The boundary falls after each word that ends in
  a full stop.  This holds in every surrounding.
\<close>

theorem segment_boundary_example:
  "map (\<lambda>s. (filename s, transcript s, start_time s, end_time s))
     (snd (extract_sentences_ffmpeg e w (AList (map Mapping bon_dia)) a l t))
   = [(l @ ustr ''_'' @ sanitize e t @ ustr ''_sentence1.mp3'', ustr ''Bon dia.'', 0, 1),
      (l @ ustr ''_'' @ sanitize e t @ ustr ''_sentence2.mp3'',
       ustr ''Ad'' @ [233] @ ustr ''u amic.'', 1, 2)]"
  by (simp add: bon_dia_def timed_def ustr_Nil ustr_Cons extract_sentences_ffmpeg_def
      process_words_def close_sentence_eq sentence_of_def ends_sentence_def endswith_def
      word_text_def float_or_0_def strip_def is_space_def segment_filename_def
      decimal.simps)

theorem segment_boundary_example_witness:
  "map (\<lambda>s. (filename s, transcript s, start_time s, end_time s))
     (snd (extract_sentences_ffmpeg example_env empty_world (AList (map Mapping bon_dia))
        (ustr ''b1/t/t_rapid.mp3'') (ustr ''b1'') (ustr ''t'')))
   = [(ustr ''b1_t_sentence1.mp3'', ustr ''Bon dia.'', 0, 1),
      (ustr ''b1_t_sentence2.mp3'', ustr ''Ad'' @ [233] @ ustr ''u amic.'', 1, 2)]"
  using segment_boundary_example [where e = example_env and l = "ustr ''b1''"
      and t = "ustr ''t''" and w = empty_world and a = "ustr ''b1/t/t_rapid.mp3''"]
  by (simp add: sanitize_def example_env_def ustr_Nil ustr_Cons)

text \<open>
  C7.  On the words Hola, Generalitat, de, Catalunya (with any times) the scan finds the
  marker at index 1 and extraction returns one sentence whose text is \<^verbatim>\<open>Hola\<close>.  For
  every sequence of mappings the scan ends without an exception; when it finds an index,
  the marker triple stands there and at no earlier index, and extraction is the processing
  of the words before that index; when it finds none, the triple stands nowhere and
  extraction is the processing of the whole sequence.
\<close>

theorem marker_exclusion:
  "find_generalitat
     (map Mapping
        [\<lparr>w_word = Some (ustr ''Hola''), w_start = s0, w_end = e0\<rparr>,
         \<lparr>w_word = Some (ustr ''Generalitat''), w_start = s1, w_end = e1\<rparr>,
         \<lparr>w_word = Some (ustr ''de''), w_start = s2, w_end = e2\<rparr>,
         \<lparr>w_word = Some (ustr ''Catalunya''), w_start = s3, w_end = e3\<rparr>]) 0 = Inr (Some 1)
   \<and> map transcript
       (snd (extract_sentences_ffmpeg e w
          (AList (map Mapping
            [\<lparr>w_word = Some (ustr ''Hola''), w_start = s0, w_end = e0\<rparr>,
             \<lparr>w_word = Some (ustr ''Generalitat''), w_start = s1, w_end = e1\<rparr>,
             \<lparr>w_word = Some (ustr ''de''), w_start = s2, w_end = e2\<rparr>,
             \<lparr>w_word = Some (ustr ''Catalunya''), w_start = s3, w_end = e3\<rparr>])) a l t))
       = [ustr ''Hola'']
   \<and> (\<exists>r. find_generalitat (map Mapping ws) 0 = Inr r \<and>
         (case r of
            Some i \<Rightarrow>
              marker_at ws i \<and> (\<forall>j<i. \<not> marker_at ws j)
              \<and> extract_sentences_ffmpeg e w (AList (map Mapping ws)) a l t
                  = process_words e w (take i ws) a l t
          | None \<Rightarrow>
              (\<forall>j. \<not> marker_at ws j)
              \<and> extract_sentences_ffmpeg e w (AList (map Mapping ws)) a l t
                  = process_words e w ws a l t))"
proof (intro conjI)
  show "find_generalitat
     (map Mapping
        [\<lparr>w_word = Some (ustr ''Hola''), w_start = s0, w_end = e0\<rparr>,
         \<lparr>w_word = Some (ustr ''Generalitat''), w_start = s1, w_end = e1\<rparr>,
         \<lparr>w_word = Some (ustr ''de''), w_start = s2, w_end = e2\<rparr>,
         \<lparr>w_word = Some (ustr ''Catalunya''), w_start = s3, w_end = e3\<rparr>]) 0 = Inr (Some 1)"
    by (simp add: ustr_Nil ustr_Cons)
  show "map transcript
       (snd (extract_sentences_ffmpeg e w
          (AList (map Mapping
            [\<lparr>w_word = Some (ustr ''Hola''), w_start = s0, w_end = e0\<rparr>,
             \<lparr>w_word = Some (ustr ''Generalitat''), w_start = s1, w_end = e1\<rparr>,
             \<lparr>w_word = Some (ustr ''de''), w_start = s2, w_end = e2\<rparr>,
             \<lparr>w_word = Some (ustr ''Catalunya''), w_start = s3, w_end = e3\<rparr>])) a l t))
       = [ustr ''Hola'']"
    by (simp add: ustr_Nil ustr_Cons extract_sentences_ffmpeg_def
      process_words_def close_sentence_eq sentence_of_def ends_sentence_def endswith_def
      word_text_def strip_def is_space_def)
  from find_generalitat_first [of ws 0] obtain r where
    r: "find_generalitat (map Mapping ws) 0 = Inr r"
    and c: "case r of None \<Rightarrow> (\<forall>j. \<not> marker_at ws j)
        | Some k \<Rightarrow> 0 \<le> k \<and> marker_at ws (k - 0) \<and> (\<forall>j < k - 0. \<not> marker_at ws j)"
    by blast
  show "\<exists>r. find_generalitat (map Mapping ws) 0 = Inr r \<and>
         (case r of
            Some i \<Rightarrow>
              marker_at ws i \<and> (\<forall>j<i. \<not> marker_at ws j)
              \<and> extract_sentences_ffmpeg e w (AList (map Mapping ws)) a l t
                  = process_words e w (take i ws) a l t
          | None \<Rightarrow>
              (\<forall>j. \<not> marker_at ws j)
              \<and> extract_sentences_ffmpeg e w (AList (map Mapping ws)) a l t
                  = process_words e w ws a l t)"
  proof (cases r)
    case None
    with c have n: "\<forall>j. \<not> marker_at ws j" by simp
    then have "cut_point ws (length ws)" by (simp add: cut_point_def)
    from extract_cut [OF this] n r None show ?thesis by simp
  next
    case (Some i)
    with c have m: "marker_at ws i" "\<forall>j<i. \<not> marker_at ws j" by simp_all
    then have "cut_point ws i" by (simp add: cut_point_def)
    from extract_cut [OF this] m r Some show ?thesis by simp
  qed
qed

theorem marker_exclusion_witness:
  "find_generalitat (map Mapping (bon_dia @ drop 1 hola_marker)) 0 = Inr (Some 4)
   \<and> marker_at (bon_dia @ drop 1 hola_marker) 4
   \<and> \<not> marker_at (bon_dia @ drop 1 hola_marker) 3
   \<and> extract_sentences_ffmpeg example_env empty_world
        (AList (map Mapping (bon_dia @ drop 1 hola_marker))) (ustr ''a.mp3'') (ustr ''b1'')
        (ustr ''t'')
      = process_words example_env empty_world bon_dia (ustr ''a.mp3'') (ustr ''b1'')
          (ustr ''t'')"
proof -
  have f: "find_generalitat (map Mapping (bon_dia @ drop 1 hola_marker)) 0 = Inr (Some 4)"
    by (simp add: bon_dia_def hola_marker_def timed_def ustr_Nil ustr_Cons)
  from marker_exclusion [where ws = "bon_dia @ drop 1 hola_marker" and e = example_env
      and w = empty_world and a = "ustr ''a.mp3''" and l = "ustr ''b1''" and t = "ustr ''t''"]
  have "marker_at (bon_dia @ drop 1 hola_marker) 4
     \<and> (\<forall>j<4. \<not> marker_at (bon_dia @ drop 1 hola_marker) j)
     \<and> extract_sentences_ffmpeg example_env empty_world
        (AList (map Mapping (bon_dia @ drop 1 hola_marker))) (ustr ''a.mp3'') (ustr ''b1'')
        (ustr ''t'')
      = process_words example_env empty_world (take 4 (bon_dia @ drop 1 hola_marker))
          (ustr ''a.mp3'') (ustr ''b1'') (ustr ''t'')"
    unfolding f by simp
  moreover have "take 4 (bon_dia @ drop 1 hola_marker) = bon_dia"
    by (simp add: bon_dia_def)
  ultimately show ?thesis using f by simp
qed

text \<open>
  C3, as amended.  Take a sequence of timed words in which no word's text ends with a full
  stop, an exclamation mark or a question mark, and let \<open>k\<close> be the first index of the
  marker triple, or the length of the sequence when the triple is absent.  When no word
  lies before \<open>k\<close>, extraction returns no sentence.  Otherwise it returns exactly one
  sentence, numbered 1, that covers the words before \<open>k\<close>: it starts at the start of the
  first of them and ends at the end of the last (0 for a missing time), and its text is
  their texts joined by single spaces, with whitespace trimmed at both ends.
\<close>

theorem unpunctuated_single_span:
  assumes "\<forall>r \<in> set ws. \<not> ends_sentence (word_text r)" and "cut_point ws k"
  shows "snd (extract_sentences_ffmpeg e w (AList (map Mapping ws)) a l t) =
     (if take k ws = [] then []
      else [\<lparr>filename = segment_filename e l t 1,
             filepath = path_join (audio_output_dir e) (segment_filename e l t 1),
             transcript = strip (join_spaces (map word_text (take k ws))),
             start_time = float_or_0 (w_start (hd (take k ws))),
             end_time = float_or_0 (w_end (last (take k ws)))\<rparr>])"
proof -
  from assms(1) have "\<forall>r \<in> set (take k ws). \<not> ends_sentence (word_text r)"
    by (meson in_set_takeD)
  from process_words_no_end [OF this] show ?thesis
    by (simp only: extract_cut [OF assms(2)])
qed

theorem unpunctuated_single_span_witness:
  "cut_point hola_marker 1
   \<and> snd (extract_sentences_ffmpeg example_env empty_world (AList (map Mapping hola_marker))
        (ustr ''a.mp3'') (ustr ''b1'') (ustr ''t''))
     = [\<lparr>filename = ustr ''b1_t_sentence1.mp3'', filepath = ustr ''out/b1_t_sentence1.mp3'',
         transcript = ustr ''Hola'', start_time = 0, end_time = 1\<rparr>]"
proof -
  have h: "\<forall>r \<in> set hola_marker. \<not> ends_sentence (word_text r)"
    by (simp add: hola_marker_def timed_def ustr_Nil ustr_Cons ends_sentence_def endswith_def
        word_text_def)
  from unpunctuated_single_span [OF h cut_point_hola, where e = example_env
      and w = empty_world and a = "ustr ''a.mp3''" and l = "ustr ''b1''" and t = "ustr ''t''"]
  have "snd (extract_sentences_ffmpeg example_env empty_world (AList (map Mapping hola_marker))
        (ustr ''a.mp3'') (ustr ''b1'') (ustr ''t''))
     = [\<lparr>filename = ustr ''b1_t_sentence1.mp3'', filepath = ustr ''out/b1_t_sentence1.mp3'',
         transcript = ustr ''Hola'', start_time = 0, end_time = 1\<rparr>]"
    by (simp add: hola_marker_def timed_def ustr_Nil ustr_Cons segment_filename_def
        sanitize_def example_env_def decimal.simps path_join_def startswith_def endswith_def
        strip_def is_space_def word_text_def float_or_0_def)
  with cut_point_hola show ?thesis by simp
qed

text \<open>
  C3 as stated fails: the empty sequence gives no sentence at all, and on Hola,
  Generalitat, de, Catalunya (no word ends a sentence) the one sentence ends at 1, the end
  of Hola, while the input ends at 4.
\<close>

theorem unpunctuated_single_span_counterexample:
  "snd (extract_sentences_ffmpeg example_env empty_world (AList []) (ustr ''a.mp3'')
     (ustr ''b1'') (ustr ''t'')) = []
   \<and> ends_sentence (ustr ''Hola'') = False \<and> ends_sentence (ustr ''Generalitat'') = False
   \<and> ends_sentence (ustr ''de'') = False \<and> ends_sentence (ustr ''Catalunya'') = False
   \<and> map end_time (snd (extract_sentences_ffmpeg example_env empty_world
        (AList (map Mapping hola_marker)) (ustr ''a.mp3'') (ustr ''b1'') (ustr ''t''))) = [1]
   \<and> w_end (last hola_marker) = Some 4"
  by (simp add: hola_marker_def timed_def ustr_Nil ustr_Cons extract_sentences_ffmpeg_def
      process_words_def close_sentence_eq sentence_of_def ends_sentence_def endswith_def
      word_text_def float_or_0_def)

text \<open>
  C5.  For every sequence of timed words, with \<open>k\<close> the first index of the marker triple
  (or the length of the sequence when the triple is absent), the texts of the returned
  sentences, concatenated in order, equal the concatenation of the texts of the words
  before \<open>k\<close>, once all whitespace is removed from both.
\<close>

theorem span_texts_cover_words:
  assumes "cut_point ws k"
  shows "no_ws (concat (map transcript
            (snd (extract_sentences_ffmpeg e w (AList (map Mapping ws)) a l t))))
         = no_ws (concat (map word_text (take k ws)))"
  by (simp only: extract_cut [OF assms] process_words_text)

text \<open>
  C10.  On a list whose elements are all mappings the scan raises nothing, and extraction
  is the processing of the words before the cut point, not the handler's empty list.  A
  record without a word, a start or an end behaves as the record with the empty text, the
  start 0 and the end 0: replacing every missing field by these defaults changes neither
  the sentences returned nor the effects.
\<close>

theorem missing_fields_default:
  "(\<exists>r. find_generalitat (map Mapping ws) 0 = Inr r)
   \<and> fill_defaults \<lparr>w_word = None, w_start = None, w_end = None\<rparr>
       = \<lparr>w_word = Some [], w_start = Some 0, w_end = Some 0\<rparr>
   \<and> extract_sentences_ffmpeg e w (AList (map Mapping ws)) a l t
       = extract_sentences_ffmpeg e w (AList (map Mapping (map fill_defaults ws))) a l t
   \<and> (\<exists>k. cut_point ws k \<and>
         extract_sentences_ffmpeg e w (AList (map Mapping ws)) a l t
           = process_words e w (take k ws) a l t)"
proof -
  from find_cut_point [of ws] obtain r where
    r: "find_generalitat (map Mapping ws) 0 = Inr r"
    and c: "cut_point ws (case r of None \<Rightarrow> length ws | Some i \<Rightarrow> i)"
    by blast
  let ?k = "case r of None \<Rightarrow> length ws | Some i \<Rightarrow> i"
  from c have c': "cut_point (map fill_defaults ws) ?k" by (simp only: cut_point_fill)
  have "extract_sentences_ffmpeg e w (AList (map Mapping (map fill_defaults ws))) a l t
        = process_words e w (map fill_defaults (take ?k ws)) a l t"
    by (simp only: extract_cut [OF c'] take_map)
  also have "\<dots> = extract_sentences_ffmpeg e w (AList (map Mapping ws)) a l t"
    by (simp only: process_words_fill extract_cut [OF c])
  finally have eq: "extract_sentences_ffmpeg e w (AList (map Mapping ws)) a l t
       = extract_sentences_ffmpeg e w (AList (map Mapping (map fill_defaults ws))) a l t"
    by simp
  have d: "fill_defaults \<lparr>w_word = None, w_start = None, w_end = None\<rparr>
       = \<lparr>w_word = Some [], w_start = Some 0, w_end = Some 0\<rparr>"
    by (simp add: fill_defaults_def word_text_def float_or_0_def)
  from r eq d c extract_cut [OF c, of e w a l t] show ?thesis by blast
qed

theorem span_texts_cover_words_witness:
  "cut_point (bon_dia @ drop 1 hola_marker) 4
   \<and> no_ws (concat (map transcript
        (snd (extract_sentences_ffmpeg example_env empty_world
           (AList (map Mapping (bon_dia @ drop 1 hola_marker))) (ustr ''a.mp3'') (ustr ''b1'')
           (ustr ''t'')))))
     = ustr ''Bondia.Ad'' @ [233] @ ustr ''uamic.''"
proof -
  from span_texts_cover_words [OF cut_point_bon_dia, where e = example_env
      and w = empty_world and a = "ustr ''a.mp3''" and l = "ustr ''b1''" and t = "ustr ''t''"]
  have "no_ws (concat (map transcript
        (snd (extract_sentences_ffmpeg example_env empty_world
           (AList (map Mapping (bon_dia @ drop 1 hola_marker))) (ustr ''a.mp3'') (ustr ''b1'')
           (ustr ''t'')))))
     = ustr ''Bondia.Ad'' @ [233] @ ustr ''uamic.''"
    by (simp add: bon_dia_def timed_def ustr_Nil ustr_Cons word_text_def no_ws_def
        is_space_def)
  with cut_point_bon_dia show ?thesis by simp
qed

theorem missing_fields_default_witness:
  "extract_sentences_ffmpeg example_env empty_world (AList (map Mapping partial_words))
       (ustr ''a.mp3'') (ustr ''b1'') (ustr ''t'')
     = extract_sentences_ffmpeg example_env empty_world
         (AList (map Mapping (map fill_defaults partial_words)))
         (ustr ''a.mp3'') (ustr ''b1'') (ustr ''t'')
   \<and> map (\<lambda>s. (transcript s, start_time s, end_time s))
       (snd (extract_sentences_ffmpeg example_env empty_world
          (AList (map Mapping partial_words)) (ustr ''a.mp3'') (ustr ''b1'') (ustr ''t'')))
     = [(ustr ''dia.'', 0, 0)]"
proof -
  have "map (\<lambda>s. (transcript s, start_time s, end_time s))
       (snd (extract_sentences_ffmpeg example_env empty_world
          (AList (map Mapping partial_words)) (ustr ''a.mp3'') (ustr ''b1'') (ustr ''t'')))
     = [(ustr ''dia.'', 0, 0)]"
    by (simp add: partial_words_def ustr_Nil ustr_Cons extract_sentences_ffmpeg_def
      process_words_def close_sentence_eq sentence_of_def ends_sentence_def endswith_def
      word_text_def float_or_0_def strip_def is_space_def)
  with missing_fields_default [where ws = partial_words and e = example_env
      and w = empty_world and a = "ustr ''a.mp3''" and l = "ustr ''b1''" and t = "ustr ''t''"]
  show ?thesis by blast
qed

section \<open>Results on the manifest and the alignment file\<close>

text \<open>
  C1, as amended.  \<open>_extract_audio_segment\<close> reports \<open>False\<close> when the tool exits with
  a status other than 0 or raises, but nothing reads that result.  The sentences returned
  by extraction are the same whatever the tool does.  An item whose transcript and
  alignment were obtained runs the tool once for every returned sentence, in order, then
  appends the rows of all returned sentences to the manifest (all of them when the append
  goes through), and reports the item as processed: every returned sentence has its row
  in the manifest and its tool run in the trace, whatever the exit status of the tool for
  its clip.  The manifest and the flag left by processing an item are the same under any
  other behaviour of the tool.  So the row of a span whose clip could not be cut is
  recorded like every other row, and the spans after it are processed and recorded.
\<close>

theorem manifest_ignores_tool_status:
  "(ffmpeg e src dst start dur \<noteq> Exit 0 \<longrightarrow>
      snd (extract_audio_segment e w src dst start dur) = False)
   \<and> snd (extract_sentences_ffmpeg (e\<lparr>ffmpeg := f\<rparr>) w ar audio l t)
       = snd (extract_sentences_ffmpeg e w ar audio l t)
   \<and> (get_transcript e w tt tp = Inr c
        \<and> align_and_dump e w audio (c @ ustr '' Generalitat de Catalunya'') = (w1, Inr ar) \<longrightarrow>
      segment_audio_file e w audio tt tp l t
        = (w1\<lparr>manifest := manifest w
                   @ written_rows e (rows_of (snd (extract_sentences_ffmpeg e w1 ar audio l t))),
              trace := trace w1
                   @ item_events e audio (snd (extract_sentences_ffmpeg e w1 ar audio l t))\<rparr>,
           True)
      \<and> (csv_append_ok e \<longrightarrow>
           (\<forall>s \<in> set (snd (extract_sentences_ffmpeg e w1 ar audio l t)).
              (filename s, transcript s)
                \<in> set (manifest (fst (segment_audio_file e w audio tt tp l t)))
              \<and> EvTool audio (filepath s) (start_time s) (end_time s - start_time s)
                \<in> set (trace (fst (segment_audio_file e w audio tt tp l t))))))
   \<and> manifest (fst (segment_audio_file (e\<lparr>ffmpeg := f\<rparr>) w audio tt tp l t))
       = manifest (fst (segment_audio_file e w audio tt tp l t))
   \<and> snd (segment_audio_file (e\<lparr>ffmpeg := f\<rparr>) w audio tt tp l t)
       = snd (segment_audio_file e w audio tt tp l t)"
proof (intro conjI impI)
  assume "ffmpeg e src dst start dur \<noteq> Exit 0"
  then show "snd (extract_audio_segment e w src dst start dur) = False"
    by (cases "ffmpeg e src dst start dur")
      (simp_all add: extract_audio_segment_def Let_def)
next
  show "snd (extract_sentences_ffmpeg (e\<lparr>ffmpeg := f\<rparr>) w ar audio l t)
     = snd (extract_sentences_ffmpeg e w ar audio l t)"
    by (rule extract_ffmpeg)
next
  assume a: "get_transcript e w tt tp = Inr c
        \<and> align_and_dump e w audio (c @ ustr '' Generalitat de Catalunya'') = (w1, Inr ar)"
  let ?ss = "snd (extract_sentences_ffmpeg e w1 ar audio l t)"
  from a have g: "get_transcript e w tt tp = Inr c"
    and d: "align_and_dump e w audio (c @ ustr '' Generalitat de Catalunya'') = (w1, Inr ar)"
    by simp_all
  show r: "segment_audio_file e w audio tt tp l t
        = (w1\<lparr>manifest := manifest w @ written_rows e (rows_of ?ss),
              trace := trace w1 @ item_events e audio ?ss\<rparr>, True)"
    by (rule segment_result [OF g d])
  assume ok: "csv_append_ok e"
  show "\<forall>s \<in> set ?ss.
          (filename s, transcript s)
            \<in> set (manifest (fst (segment_audio_file e w audio tt tp l t)))
          \<and> EvTool audio (filepath s) (start_time s) (end_time s - start_time s)
            \<in> set (trace (fst (segment_audio_file e w audio tt tp l t)))"
  proof
    fix s assume s: "s \<in> set ?ss"
    then have "(filename s, transcript s) \<in> set (rows_of ?ss)"
      unfolding rows_of_def by (simp add: image_iff) blast
    with ok have 1: "(filename s, transcript s)
        \<in> set (manifest (fst (segment_audio_file e w audio tt tp l t)))"
      unfolding r by (simp add: written_rows_def)
    from s have "tool_event audio s \<in> set (item_events e audio ?ss)"
      by (simp add: item_events_def)
    then have 2: "EvTool audio (filepath s) (start_time s) (end_time s - start_time s)
        \<in> set (trace (fst (segment_audio_file e w audio tt tp l t)))"
      unfolding r by (simp add: tool_event_def)
    from 1 2 show "(filename s, transcript s)
            \<in> set (manifest (fst (segment_audio_file e w audio tt tp l t)))
          \<and> EvTool audio (filepath s) (start_time s) (end_time s - start_time s)
            \<in> set (trace (fst (segment_audio_file e w audio tt tp l t)))"
      by simp
  qed
next
  have both: "manifest (fst (segment_audio_file (e\<lparr>ffmpeg := f\<rparr>) w audio tt tp l t))
       = manifest (fst (segment_audio_file e w audio tt tp l t))
     \<and> snd (segment_audio_file (e\<lparr>ffmpeg := f\<rparr>) w audio tt tp l t)
       = snd (segment_audio_file e w audio tt tp l t)"
  proof (cases "get_transcript e w tt tp")
    case (Inl x)
    then show ?thesis by (simp add: segment_audio_file_def get_transcript_ffmpeg)
  next
    case (Inr clean_text)
    obtain v1 res where a: "align_and_dump e w audio (clean_text @ ustr '' Generalitat de Catalunya'') = (v1, res)"
      by (cases "align_and_dump e w audio (clean_text @ ustr '' Generalitat de Catalunya'')")
    show ?thesis
    proof (cases res)
      case (Inl x)
      with Inr a show ?thesis
        by (simp add: segment_audio_file_def get_transcript_ffmpeg align_ffmpeg)
    next
      case (Inr ar')
      have 1: "get_transcript (e\<lparr>ffmpeg := f\<rparr>) w tt tp = Inr clean_text"
        using \<open>get_transcript e w tt tp = Inr clean_text\<close> by (simp add: get_transcript_ffmpeg)
      have 2: "align_and_dump (e\<lparr>ffmpeg := f\<rparr>) w audio (clean_text @ ustr '' Generalitat de Catalunya'') = (v1, Inr ar')"
        using a Inr by (simp add: align_ffmpeg)
      show ?thesis
        unfolding segment_ok_shape [OF 1 2]
          segment_ok_shape [OF \<open>get_transcript e w tt tp = Inr clean_text\<close> a [unfolded Inr]]
        by (simp add: save_manifest written_rows_def
            extract_ffmpeg [where e = e and f = f and v = v1 and w = v1])
    qed
  qed
  from both show "manifest (fst (segment_audio_file (e\<lparr>ffmpeg := f\<rparr>) w audio tt tp l t))
       = manifest (fst (segment_audio_file e w audio tt tp l t))" by simp
  from both show "snd (segment_audio_file (e\<lparr>ffmpeg := f\<rparr>) w audio tt tp l t)
       = snd (segment_audio_file e w audio tt tp l t)" by simp
qed


text \<open>
  C1 as stated fails: the tool exits with status 1 for the clip of the first sentence
  (\<open>_extract_audio_segment\<close> reports \<open>False\<close>), and the row of that sentence is in the
  manifest.
\<close>

theorem manifest_ignores_tool_status_counterexample:
  "ffmpeg example_env example_audio (ustr ''out/b1_t_sentence1.mp3'') 0 1 = Exit 1
   \<and> snd (extract_audio_segment example_env empty_world example_audio
        (ustr ''out/b1_t_sentence1.mp3'') 0 1) = False
   \<and> manifest (fst (segment_audio_file example_env empty_world example_audio
        (Some (ustr ''Bon dia.'')) None (ustr ''b1'') (ustr ''t'')))
      = [(ustr ''b1_t_sentence1.mp3'', ustr ''Bon dia.''),
         (ustr ''b1_t_sentence2.mp3'', ustr ''Ad'' @ [233] @ ustr ''u amic.'')]"
  using example_run [of True]
  by (simp add: example_env_def extract_audio_segment_def)

theorem manifest_ignores_tool_status_witness:
  "segment_audio_file example_env empty_world example_audio (Some (ustr ''Bon dia.'')) None
     (ustr ''b1'') (ustr ''t'')
   = (\<lparr>files = {ustr ''b1/t/t_rapid.mp3_alignment.json''},
       manifest = [(ustr ''b1_t_sentence1.mp3'', ustr ''Bon dia.''),
                   (ustr ''b1_t_sentence2.mp3'', ustr ''Ad'' @ [233] @ ustr ''u amic.'')],
       trace =
         [EvApiCall example_audio (ustr ''Bon dia. Generalitat de Catalunya''),
          EvWriteAlignment (ustr ''b1/t/t_rapid.mp3_alignment.json''),
          EvTool example_audio (ustr ''out/b1_t_sentence1.mp3'') 0 1,
          EvTool example_audio (ustr ''out/b1_t_sentence2.mp3'') 1 1,
          EvCsvAppend
            [(ustr ''b1_t_sentence1.mp3'', ustr ''Bon dia.''),
             (ustr ''b1_t_sentence2.mp3'', ustr ''Ad'' @ [233] @ ustr ''u amic.'')]]\<rparr>, True)
   \<and> snd (extract_audio_segment example_env empty_world example_audio
        (ustr ''out/b1_t_sentence2.mp3'') 1 1) = False"
proof -
  let ?e = "example_env\<lparr>csv_append_ok := True\<rparr>"
  let ?w1 = "\<lparr>files = {ustr ''b1/t/t_rapid.mp3_alignment.json''}, manifest = [],
         trace = [EvApiCall example_audio (ustr ''Bon dia.'' @ ustr '' Generalitat de Catalunya''),
                  EvWriteAlignment (ustr ''b1/t/t_rapid.mp3_alignment.json'')]\<rparr>"
  let ?ar = "AList (map Mapping (bon_dia @ drop 1 hola_marker))"
  have e: "?e = example_env" by (simp add: example_env_def)
  have h: "ffmpeg ?e example_audio (ustr ''out/b1_t_sentence2.mp3'') 1 1 \<noteq> Exit 0"
    by (simp add: example_env_def)
  note th = manifest_ignores_tool_status [where e = ?e and w = empty_world
      and audio = example_audio and tt = "Some (ustr ''Bon dia.'')" and tp = None
      and c = "ustr ''Bon dia.''" and ?w1.0 = ?w1 and ar = ?ar and l = "ustr ''b1''"
      and t = "ustr ''t''" and src = example_audio
      and dst = "ustr ''out/b1_t_sentence2.mp3''" and start = 1 and dur = 1]
  from th h have a: "snd (extract_audio_segment ?e empty_world example_audio
        (ustr ''out/b1_t_sentence2.mp3'') 1 1) = False"
    by blast
  from th example_transcript [of ?e empty_world] example_align [of True]
  have "segment_audio_file ?e empty_world example_audio (Some (ustr ''Bon dia.'')) None
     (ustr ''b1'') (ustr ''t'')
   = (?w1\<lparr>manifest := manifest empty_world
                   @ written_rows ?e (rows_of (snd (extract_sentences_ffmpeg ?e ?w1 ?ar
                        example_audio (ustr ''b1'') (ustr ''t'')))),
           trace := trace ?w1
                   @ item_events ?e example_audio (snd (extract_sentences_ffmpeg ?e ?w1 ?ar
                        example_audio (ustr ''b1'') (ustr ''t'')))\<rparr>, True)"
    by blast
  then have b: "segment_audio_file ?e empty_world example_audio (Some (ustr ''Bon dia.'')) None
     (ustr ''b1'') (ustr ''t'')
   = (\<lparr>files = {ustr ''b1/t/t_rapid.mp3_alignment.json''},
       manifest = [(ustr ''b1_t_sentence1.mp3'', ustr ''Bon dia.''),
                   (ustr ''b1_t_sentence2.mp3'', ustr ''Ad'' @ [233] @ ustr ''u amic.'')],
       trace =
         [EvApiCall example_audio (ustr ''Bon dia. Generalitat de Catalunya''),
          EvWriteAlignment (ustr ''b1/t/t_rapid.mp3_alignment.json''),
          EvTool example_audio (ustr ''out/b1_t_sentence1.mp3'') 0 1,
          EvTool example_audio (ustr ''out/b1_t_sentence2.mp3'') 1 1,
          EvCsvAppend
            [(ustr ''b1_t_sentence1.mp3'', ustr ''Bon dia.''),
             (ustr ''b1_t_sentence2.mp3'', ustr ''Ad'' @ [233] @ ustr ''u amic.'')]]\<rparr>, True)"
    unfolding example_sentences
    by (simp add: item_events_def written_rows_def tool_event_def rows_of_def empty_world_def
        example_env_def ustr_Nil ustr_Cons)
  from a b show ?thesis unfolding e by simp
qed



section \<open>Results on the walker\<close>

text \<open>
  C8.  The claim is about the file name, and the code does not meet it for a topic taken
  from the index.  The directory scan and the fallback of the index walk test the file
  name for \<^verbatim>\<open>rapid\<close>; the test on the entries of the index reads the whole path.  Here
  the directory of the topic is called \<^verbatim>\<open>rapid\<close> and the index lists the slow variant
  before the rapid one, both existing.  Both paths hold \<^verbatim>\<open>rapid\<close>, so both are chosen, in
  the order of the index; the loop over the chosen files processes the slow variant and
  ends there (by \<^verbatim>\<open>return\<close> in the bounded mode, by \<^verbatim>\<open>break\<close> otherwise), so the rapid
  variant is never processed.  On the same file names the directory scan, and the index
  walk when the topic has no list of audio files, choose the rapid variant only.
\<close>

theorem index_rapid_test_reads_path:
  "master_audio_files example_env index_world (Some index_entries) (ustr ''d/rapid'')
       (Some index_listing)
     = Inr [ustr ''d/rapid/c_lent.mp3'', ustr ''d/rapid/c_rapid.mp3'']
   \<and> master_audio_loop example_env True None (Some (ustr ''d/rapid/c.txt'')) (ustr ''b1'')
       (ustr ''c'') [ustr ''d/rapid/c_lent.mp3'', ustr ''d/rapid/c_rapid.mp3''] (index_world, 0)
     = Return
         (\<lparr>files = {ustr ''d/rapid/c_lent.mp3_alignment.json'', ustr ''d/rapid/c.txt'',
                    ustr ''d/rapid/c_lent.mp3'', ustr ''d/rapid/c_rapid.mp3''},
           manifest = [(ustr ''b1_c_sentence1.mp3'', ustr ''Bon dia.''),
                       (ustr ''b1_c_sentence2.mp3'', ustr ''Ad'' @ [233] @ ustr ''u amic.'')],
           trace =
             [EvApiCall (ustr ''d/rapid/c_lent.mp3'')
                (ustr ''Bon dia. Generalitat de Catalunya''),
              EvWriteAlignment (ustr ''d/rapid/c_lent.mp3_alignment.json''),
              EvTool (ustr ''d/rapid/c_lent.mp3'') (ustr ''out/b1_c_sentence1.mp3'') 0 1,
              EvTool (ustr ''d/rapid/c_lent.mp3'') (ustr ''out/b1_c_sentence2.mp3'') 1 1,
              EvCsvAppend
                [(ustr ''b1_c_sentence1.mp3'', ustr ''Bon dia.''),
                 (ustr ''b1_c_sentence2.mp3'', ustr ''Ad'' @ [233] @ ustr ''u amic.'')]]\<rparr>, 1)
   \<and> master_audio_loop example_env False None (Some (ustr ''d/rapid/c.txt'')) (ustr ''b1'')
       (ustr ''c'') [ustr ''d/rapid/c_lent.mp3'', ustr ''d/rapid/c_rapid.mp3''] (index_world, 0)
     = Next
         (fst (segment_audio_file example_env index_world (ustr ''d/rapid/c_lent.mp3'') None
                 (Some (ustr ''d/rapid/c.txt'')) (ustr ''b1'') (ustr ''c'')), 1)
   \<and> scan_audio_files example_env index_listing = [ustr ''c_rapid.mp3'']
   \<and> master_audio_files example_env index_world None (ustr ''d/rapid'') (Some index_listing)
     = Inr [ustr ''d/rapid/c_rapid.mp3'']"
proof (intro conjI)
  show "master_audio_files example_env index_world (Some index_entries) (ustr ''d/rapid'')
       (Some index_listing)
     = Inr [ustr ''d/rapid/c_lent.mp3'', ustr ''d/rapid/c_rapid.mp3'']"
    by (rule index_files)
  show "master_audio_loop example_env True None (Some (ustr ''d/rapid/c.txt'')) (ustr ''b1'')
       (ustr ''c'') [ustr ''d/rapid/c_lent.mp3'', ustr ''d/rapid/c_rapid.mp3''] (index_world, 0)
     = Return
         (\<lparr>files = {ustr ''d/rapid/c_lent.mp3_alignment.json'', ustr ''d/rapid/c.txt'',
                    ustr ''d/rapid/c_lent.mp3'', ustr ''d/rapid/c_rapid.mp3''},
           manifest = [(ustr ''b1_c_sentence1.mp3'', ustr ''Bon dia.''),
                       (ustr ''b1_c_sentence2.mp3'', ustr ''Ad'' @ [233] @ ustr ''u amic.'')],
           trace =
             [EvApiCall (ustr ''d/rapid/c_lent.mp3'')
                (ustr ''Bon dia. Generalitat de Catalunya''),
              EvWriteAlignment (ustr ''d/rapid/c_lent.mp3_alignment.json''),
              EvTool (ustr ''d/rapid/c_lent.mp3'') (ustr ''out/b1_c_sentence1.mp3'') 0 1,
              EvTool (ustr ''d/rapid/c_lent.mp3'') (ustr ''out/b1_c_sentence2.mp3'') 1 1,
              EvCsvAppend
                [(ustr ''b1_c_sentence1.mp3'', ustr ''Bon dia.''),
                 (ustr ''b1_c_sentence2.mp3'', ustr ''Ad'' @ [233] @ ustr ''u amic.'')]]\<rparr>, 1)"
    by (simp add: lent_not_done run_lent)
  show "master_audio_loop example_env False None (Some (ustr ''d/rapid/c.txt'')) (ustr ''b1'')
       (ustr ''c'') [ustr ''d/rapid/c_lent.mp3'', ustr ''d/rapid/c_rapid.mp3''] (index_world, 0)
     = Next
         (fst (segment_audio_file example_env index_world (ustr ''d/rapid/c_lent.mp3'') None
                 (Some (ustr ''d/rapid/c.txt'')) (ustr ''b1'') (ustr ''c'')), 1)"
    by (simp add: lent_not_done run_lent)
  show "scan_audio_files example_env index_listing = [ustr ''c_rapid.mp3'']"
    by (rule index_scan)
  show "master_audio_files example_env index_world None (ustr ''d/rapid'') (Some index_listing)
     = Inr [ustr ''d/rapid/c_rapid.mp3'']"
    by (rule index_fallback)
qed

text \<open>
  C9.  The claim is not met by the code for a failure inside sentence extraction or in
  the append to the manifest.  Here the service answers for the first topic with a list
  whose element is not a mapping, so the scan for the marker raises inside
  \<^verbatim>\<open>_extract_sentences_ffmpeg\<close>; the exception is caught there, no sentence is returned
  and nothing is recorded, and \<^verbatim>\<open>segment_audio_file\<close> reports the item as processed.  In
  the bounded mode the walker therefore stops after this item with the count 1 and never
  comes to the second topic, and the alignment file left behind makes later runs pass
  the item over.  When the call of the service raises instead, the same item is reported
  as failed.  An append to the manifest that fails is not reported as a failure of the
  item either.
\<close>

theorem swallowed_failure_reported_as_success:
  "find_generalitat [NotMapping] 0 = Inl AttributeError
   \<and> segment_audio_file broken_env corpus_world (ustr ''d/b1/s/s_rapid.mp3'') None
       (Some (ustr ''d/b1/s/s.txt'')) (ustr ''b1'') (ustr ''s'')
     = (\<lparr>files = {ustr ''d/b1/s/s_rapid.mp3_alignment.json'', ustr ''d/b1/s/s.txt'',
                  ustr ''d/b1/t/t.txt''},
         manifest = [],
         trace = [EvApiCall (ustr ''d/b1/s/s_rapid.mp3'')
                    (ustr ''Bon dia. Generalitat de Catalunya''),
                  EvWriteAlignment (ustr ''d/b1/s/s_rapid.mp3_alignment.json''),
                  EvCsvAppend []]\<rparr>, True)
   \<and> process_directory_scan broken_env True (ustr ''d'') (Some corpus_tree) corpus_world
     = (\<lparr>files = {ustr ''d/b1/s/s_rapid.mp3_alignment.json'', ustr ''d/b1/s/s.txt'',
                  ustr ''d/b1/t/t.txt''},
         manifest = [],
         trace = [EvApiCall (ustr ''d/b1/s/s_rapid.mp3'')
                    (ustr ''Bon dia. Generalitat de Catalunya''),
                  EvWriteAlignment (ustr ''d/b1/s/s_rapid.mp3_alignment.json''),
                  EvCsvAppend []]\<rparr>, Inr 1)
   \<and> is_done (fst (process_directory_scan broken_env True (ustr ''d'') (Some corpus_tree)
                     corpus_world)) (ustr ''d/b1/s/s_rapid.mp3'')
   \<and> segment_audio_file flaky_env corpus_world (ustr ''d/b1/s/s_rapid.mp3'') None
       (Some (ustr ''d/b1/s/s.txt'')) (ustr ''b1'') (ustr ''s'')
     = (corpus_world\<lparr>trace := [EvApiCall (ustr ''d/b1/s/s_rapid.mp3'')
                                   (ustr ''Bon dia. Generalitat de Catalunya'')]\<rparr>, False)
   \<and> segment_audio_file (example_env\<lparr>csv_append_ok := False\<rparr>) empty_world example_audio
       (Some (ustr ''Bon dia.'')) None (ustr ''b1'') (ustr ''t'')
     = (\<lparr>files = {ustr ''b1/t/t_rapid.mp3_alignment.json''},
         manifest = [],
         trace =
           [EvApiCall example_audio (ustr ''Bon dia. Generalitat de Catalunya''),
            EvWriteAlignment (ustr ''b1/t/t_rapid.mp3_alignment.json''),
            EvTool example_audio (ustr ''out/b1_t_sentence1.mp3'') 0 1,
            EvTool example_audio (ustr ''out/b1_t_sentence2.mp3'') 1 1]\<rparr>, True)"
proof -
  have s: "t_name topic_s = ustr ''s''" by (simp add: topic_s_def)
  have 1: "segment_audio_file broken_env corpus_world (ustr ''d/b1/s/s_rapid.mp3'') None
       (Some (ustr ''d/b1/s/s.txt'')) (ustr ''b1'') (ustr ''s'')
     = (\<lparr>files = {ustr ''d/b1/s/s_rapid.mp3_alignment.json'', ustr ''d/b1/s/s.txt'',
                  ustr ''d/b1/t/t.txt''},
         manifest = [],
         trace = [EvApiCall (ustr ''d/b1/s/s_rapid.mp3'')
                    (ustr ''Bon dia. Generalitat de Catalunya''),
                  EvWriteAlignment (ustr ''d/b1/s/s_rapid.mp3_alignment.json''),
                  EvCsvAppend []]\<rparr>, True)"
    using run_broken by (simp only: s)
  have 2: "process_directory_scan broken_env True (ustr ''d'') (Some corpus_tree) corpus_world
     = (\<lparr>files = {ustr ''d/b1/s/s_rapid.mp3_alignment.json'', ustr ''d/b1/s/s.txt'',
                  ustr ''d/b1/t/t.txt''},
         manifest = [],
         trace = [EvApiCall (ustr ''d/b1/s/s_rapid.mp3'')
                    (ustr ''Bon dia. Generalitat de Catalunya''),
                  EvWriteAlignment (ustr ''d/b1/s/s_rapid.mp3_alignment.json''),
                  EvCsvAppend []]\<rparr>, Inr 1)"
    using corpus_level(2)
    by (simp add: process_directory_scan_def corpus_tree_def Let_def corpus_level(1)
        scan_topic_def item_s run_broken)
  have 3: "is_done (fst (process_directory_scan broken_env True (ustr ''d'') (Some corpus_tree)
                     corpus_world)) (ustr ''d/b1/s/s_rapid.mp3'')"
    unfolding 2 by (simp add: is_done_def ustr_Nil ustr_Cons)
  have 4: "segment_audio_file flaky_env corpus_world (ustr ''d/b1/s/s_rapid.mp3'') None
       (Some (ustr ''d/b1/s/s.txt'')) (ustr ''b1'') (ustr ''s'')
     = (corpus_world\<lparr>trace := [EvApiCall (ustr ''d/b1/s/s_rapid.mp3'')
                                   (ustr ''Bon dia. Generalitat de Catalunya'')]\<rparr>, False)"
    using run_s by (simp only: s world_after_s_def)
  have 5: "segment_audio_file (example_env\<lparr>csv_append_ok := False\<rparr>) empty_world example_audio
       (Some (ustr ''Bon dia.'')) None (ustr ''b1'') (ustr ''t'')
     = (\<lparr>files = {ustr ''b1/t/t_rapid.mp3_alignment.json''},
         manifest = [],
         trace =
           [EvApiCall example_audio (ustr ''Bon dia. Generalitat de Catalunya''),
            EvWriteAlignment (ustr ''b1/t/t_rapid.mp3_alignment.json''),
            EvTool example_audio (ustr ''out/b1_t_sentence1.mp3'') 0 1,
            EvTool example_audio (ustr ''out/b1_t_sentence2.mp3'') 1 1]\<rparr>, True)"
    using example_run [of False] by simp
  have 0: "find_generalitat [NotMapping] 0 = Inl AttributeError" by simp
  from 0 1 2 3 4 5 show ?thesis by (intro conjI)
qed

section \<open>Results on transcript cleaning\<close>

text \<open>
  C4, as amended.  Cleaning is three removals, run one after the other, each on the
  result of the one before, for \<^verbatim>\<open>Text:\<close> (as written, directly after the line feed),
  then \<^verbatim>\<open>Author:\<close>, then \<^verbatim>\<open>Source:\<close> (in any letter case, after optional whitespace);
  what they leave is then split at its runs of whitespace, line feeds included, and the
  pieces are joined by single spaces.

  A removal looks at the last line of its input only, where a final line feed does not
  count.  An input of one line, and an input ending in two line feeds, is left as it is.
  Otherwise the input is a body, a line feed and a non-empty last line (and possibly the
  final line feed): when the last line starts with the label, the removal leaves the body
  (for \<^verbatim>\<open>Author:\<close> and \<^verbatim>\<open>Source:\<close> without the blank lines at its end) followed by the
  final line feed if there was one, and when it does not, the input is left as it is.  So
  a label line that a further line follows is kept by the removal for its label; it goes
  only when the lines after it have been removed by the removals run before.

  For the whole function: a text whose last line is not empty and starts with none of the
  three labels, and a text of one line, is only split and joined.  A last line starting
  with \<^verbatim>\<open>Text:\<close> is removed with the line feed before it: the result is the result for
  the text before that line feed, when that text does not itself end in such a line; a
  last line starting, after optional whitespace, with \<^verbatim>\<open>Author:\<close> or \<^verbatim>\<open>Source:\<close> in any
  letter case is removed likewise, for a text before it that does not end in whitespace
  and is itself left alone by the removals applied to it.  The result holds no
  whitespace character but the space, no two adjacent spaces, and no space at its start
  or end.
\<close>

theorem attribution_removed_at_end:
  "clean_transcript raw
     = join_spaces (split_ws
         (re_sub_attribution True True (ustr ''source:'')
           (re_sub_attribution True True (ustr ''author:'')
             (re_sub_attribution False False (ustr ''Text:'') raw))))
   \<and> ((sw, ci, label) \<in> set removals \<and> 10 \<notin> set line \<and> (nl = [] \<or> nl = [10]) \<longrightarrow>
        re_sub_attribution sw ci label (line @ nl) = line @ nl
        \<and> re_sub_attribution sw ci label (body @ [10, 10]) = body @ [10, 10]
        \<and> (line \<noteq> [] \<longrightarrow>
             re_sub_attribution sw ci label (body @ [10] @ line @ nl)
               = (if line_has_label sw ci label line then cut_before sw body @ nl
                  else body @ [10] @ line @ nl)))
   \<and> (10 \<notin> set line \<and> line \<noteq> [] \<and> (nl = [] \<or> nl = [10])
        \<and> \<not> line_has_label False False (ustr ''Text:'') line
        \<and> \<not> line_has_label True True (ustr ''author:'') line
        \<and> \<not> line_has_label True True (ustr ''source:'') line \<longrightarrow>
      clean_transcript (body @ [10] @ line @ nl)
        = join_spaces (split_ws (body @ [10] @ line @ nl)))
   \<and> (10 \<notin> set raw \<longrightarrow> clean_transcript raw = join_spaces (split_ws raw))
   \<and> ((\<forall>c \<in> set (clean_transcript raw). is_space c \<longrightarrow> c = 32)
       \<and> single_spaced (clean_transcript raw)
       \<and> (clean_transcript raw \<noteq> [] \<longrightarrow>
            \<not> is_space (hd (clean_transcript raw)) \<and> \<not> is_space (last (clean_transcript raw))))
   \<and> (10 \<notin> set t
        \<and> re_sub_attribution False False (ustr ''Text:'') body = body \<longrightarrow>
      clean_transcript (body @ [10] @ ustr ''Text:'' @ t) = clean_transcript body)
   \<and> ((\<forall>c \<in> set ws. is_space c) \<and> list_all2 ci_eq (ustr ''author:'') lab \<and> 10 \<notin> set t
        \<and> (body = [] \<or> \<not> is_space (last body))
        \<and> re_sub_attribution False False (ustr ''Text:'') body = body
        \<and> re_sub_attribution True True (ustr ''author:'') body = body \<longrightarrow>
      clean_transcript (body @ [10] @ ws @ lab @ t) = clean_transcript body)
   \<and> ((\<forall>c \<in> set ws. is_space c) \<and> list_all2 ci_eq (ustr ''source:'') lab \<and> 10 \<notin> set t
        \<and> (body = [] \<or> \<not> is_space (last body))
        \<and> re_sub_attribution False False (ustr ''Text:'') body = body
        \<and> re_sub_attribution True True (ustr ''author:'') body = body
        \<and> re_sub_attribution True True (ustr ''source:'') body = body \<longrightarrow>
      clean_transcript (body @ [10] @ ws @ lab @ t) = clean_transcript body)"
proof (intro conjI impI)
  show "clean_transcript raw
     = join_spaces (split_ws
         (re_sub_attribution True True (ustr ''source:'')
           (re_sub_attribution True True (ustr ''author:'')
             (re_sub_attribution False False (ustr ''Text:'') raw))))"
    by (rule clean_split)
next
  assume a: "(sw, ci, label) \<in> set removals \<and> 10 \<notin> set line \<and> (nl = [] \<or> nl = [10])"
  then have r: "(sw, ci, label) \<in> set removals" and l: "10 \<notin> set line"
    and n: "nl = [] \<or> nl = [10]" by simp_all
  note lab = removals_labels [OF r]
  show "re_sub_attribution sw ci label (line @ nl) = line @ nl"
    by (rule resub_tail [OF lab l n])
  show "re_sub_attribution sw ci label (body @ [10, 10]) = body @ [10, 10]"
    by (rule resub_blank_end [OF lab])
  assume "line \<noteq> []"
  from resub_last_line [OF lab l this n]
  show "re_sub_attribution sw ci label (body @ [10] @ line @ nl)
               = (if line_has_label sw ci label line then cut_before sw body @ nl
                  else body @ [10] @ line @ nl)" .
next
  assume "10 \<notin> set line \<and> line \<noteq> [] \<and> (nl = [] \<or> nl = [10])
        \<and> \<not> line_has_label False False (ustr ''Text:'') line
        \<and> \<not> line_has_label True True (ustr ''author:'') line
        \<and> \<not> line_has_label True True (ustr ''source:'') line"
  then show "clean_transcript (body @ [10] @ line @ nl)
        = join_spaces (split_ws (body @ [10] @ line @ nl))"
    by (intro clean_kept) simp_all
next
  assume "10 \<notin> set raw"
  then show "clean_transcript raw = join_spaces (split_ws raw)" by (rule clean_no_nl)
next
  show "\<forall>c \<in> set (clean_transcript raw). is_space c \<longrightarrow> c = 32"
    and "single_spaced (clean_transcript raw)"
    using clean_normal_form [of raw] by simp_all
next
  assume "clean_transcript raw \<noteq> []"
  with clean_normal_form [of raw]
  show "\<not> is_space (hd (clean_transcript raw))" and "\<not> is_space (last (clean_transcript raw))"
    by simp_all
next
  assume a: "10 \<notin> set t \<and> re_sub_attribution False False (ustr ''Text:'') body = body"
  then have n: "10 \<notin> set t" by simp
  from a text_removed [OF n, of body]
  have "re_sub_attribution False False (ustr ''Text:'') (body @ [10] @ ustr ''Text:'' @ t)
      = re_sub_attribution False False (ustr ''Text:'') body"
    by simp
  then show "clean_transcript (body @ [10] @ ustr ''Text:'' @ t) = clean_transcript body"
    by (simp only: clean_steps)
next
  assume a: "(\<forall>c \<in> set ws. is_space c) \<and> list_all2 ci_eq (ustr ''author:'') lab \<and> 10 \<notin> set t
        \<and> (body = [] \<or> \<not> is_space (last body))
        \<and> re_sub_attribution False False (ustr ''Text:'') body = body
        \<and> re_sub_attribution True True (ustr ''author:'') body = body"
  then have 1: "re_sub_attribution False False (ustr ''Text:'') (body @ [10] @ ws @ lab @ t)
      = body @ [10] @ ws @ lab @ t"
    by (intro author_kept_by_text [where label = "ustr ''author:''"]) simp_all
  from a have 2: "re_sub_attribution True True (ustr ''author:'') (body @ [10] @ ws @ lab @ t)
      = body"
    by (intro ci_removed) simp_all
  from a have 3: "re_sub_attribution True True (ustr ''author:'')
        (re_sub_attribution False False (ustr ''Text:'') body) = body"
    by simp
  show "clean_transcript (body @ [10] @ ws @ lab @ t) = clean_transcript body"
    by (simp only: clean_steps 1 2 3)
next
  assume a: "(\<forall>c \<in> set ws. is_space c) \<and> list_all2 ci_eq (ustr ''source:'') lab \<and> 10 \<notin> set t
        \<and> (body = [] \<or> \<not> is_space (last body))
        \<and> re_sub_attribution False False (ustr ''Text:'') body = body
        \<and> re_sub_attribution True True (ustr ''author:'') body = body
        \<and> re_sub_attribution True True (ustr ''source:'') body = body"
  then have 1: "re_sub_attribution False False (ustr ''Text:'') (body @ [10] @ ws @ lab @ t)
      = body @ [10] @ ws @ lab @ t"
    by (intro author_kept_by_text [where label = "ustr ''source:''"]) simp_all
  from a have 2: "re_sub_attribution True True (ustr ''author:'') (body @ [10] @ ws @ lab @ t)
      = body @ [10] @ ws @ lab @ t"
    by (intro source_kept_by_author) simp_all
  from a have 3: "re_sub_attribution True True (ustr ''source:'') (body @ [10] @ ws @ lab @ t)
      = body"
    by (intro ci_removed) simp_all
  from a have 4: "re_sub_attribution True True (ustr ''source:'')
        (re_sub_attribution True True (ustr ''author:'')
          (re_sub_attribution False False (ustr ''Text:'') body)) = body"
    by simp
  show "clean_transcript (body @ [10] @ ws @ lab @ t) = clean_transcript body"
    by (simp only: clean_steps 1 2 3 4)
qed

text \<open>
  Four instances: a last line \<^verbatim>\<open>Text: Sonia\<close> is removed; the removal for \<^verbatim>\<open>Author:\<close>
  cuts an indented last line in capitals and keeps the final line feed; a last line
  \<^verbatim>\<open>Source\<close> without a colon is kept and the double space and the line feed become single
  spaces; and in \<^verbatim>\<open>Hola\<close>, \<^verbatim>\<open>Author: A\<close>, \<^verbatim>\<open>Text: B\<close> the second line goes too, once the
  third has been removed.
\<close>

theorem attribution_removed_at_end_witness:
  "clean_transcript (ustr ''Hola'' @ [10] @ ustr ''Text:'' @ ustr '' Sonia'') = ustr ''Hola''
   \<and> re_sub_attribution True True (ustr ''author:'')
        (ustr ''Hola'' @ [10] @ ustr ''  AUTHOR: A'' @ [10]) = ustr ''Hola'' @ [10]
   \<and> clean_transcript (ustr ''Bon  dia.'' @ [10] @ ustr ''Source'' @ [])
       = ustr ''Bon dia. Source''
   \<and> clean_transcript (ustr ''Hola'' @ [10] @ ustr ''Author: A'' @ [10] @ ustr ''Text: B'')
       = ustr ''Hola''"
proof -
  have h: "10 \<notin> set (ustr '' Sonia'')
      \<and> re_sub_attribution False False (ustr ''Text:'') (ustr ''Hola'') = ustr ''Hola''"
    by (simp add: ustr_Nil ustr_Cons)
  from attribution_removed_at_end [where t = "ustr '' Sonia''" and body = "ustr ''Hola''"] h
  have "clean_transcript (ustr ''Hola'' @ [10] @ ustr ''Text:'' @ ustr '' Sonia'')
      = clean_transcript (ustr ''Hola'')"
    by blast
  then have 1: "clean_transcript (ustr ''Hola'' @ [10] @ ustr ''Text:'' @ ustr '' Sonia'')
      = ustr ''Hola''"
    by (simp only: clean_hola)
  have h2: "(True, True, ustr ''author:'') \<in> set removals \<and> 10 \<notin> set (ustr ''  AUTHOR: A'')
      \<and> ([10::nat] = [] \<or> [10::nat] = [10]) \<and> ustr ''  AUTHOR: A'' \<noteq> []"
    by (simp add: removals_def ustr_Nil ustr_Cons)
  have l2: "line_has_label True True (ustr ''author:'') (ustr ''  AUTHOR: A'')"
    by (simp add: line_has_label_def label_here_def ci_eq_def ascii_lower_def is_space_def
        ustr_Nil ustr_Cons)
  have c2: "cut_before True (ustr ''Hola'') = ustr ''Hola''"
    by (simp add: cut_before_def is_space_def ustr_Nil ustr_Cons)
  from attribution_removed_at_end [where sw = True and ci = True and label = "ustr ''author:''"
      and line = "ustr ''  AUTHOR: A''" and nl = "[10]" and body = "ustr ''Hola''"] h2
  have "re_sub_attribution True True (ustr ''author:'')
        (ustr ''Hola'' @ [10] @ ustr ''  AUTHOR: A'' @ [10])
      = (if line_has_label True True (ustr ''author:'') (ustr ''  AUTHOR: A'')
         then cut_before True (ustr ''Hola'') @ [10]
         else ustr ''Hola'' @ [10] @ ustr ''  AUTHOR: A'' @ [10])"
    by blast
  then have 2: "re_sub_attribution True True (ustr ''author:'')
        (ustr ''Hola'' @ [10] @ ustr ''  AUTHOR: A'' @ [10]) = ustr ''Hola'' @ [10]"
    by (simp only: l2 c2 if_True)
  have h3: "10 \<notin> set (ustr ''Source'') \<and> ustr ''Source'' \<noteq> []
        \<and> (([]::nat list) = [] \<or> ([]::nat list) = [10])
        \<and> \<not> line_has_label False False (ustr ''Text:'') (ustr ''Source'')
        \<and> \<not> line_has_label True True (ustr ''author:'') (ustr ''Source'')
        \<and> \<not> line_has_label True True (ustr ''source:'') (ustr ''Source'')"
    by (simp add: line_has_label_def label_here_def ci_eq_def ascii_lower_def is_space_def
        ustr_Nil ustr_Cons)
  from attribution_removed_at_end [where line = "ustr ''Source''" and nl = "[]"
      and body = "ustr ''Bon  dia.''"] h3
  have "clean_transcript (ustr ''Bon  dia.'' @ [10] @ ustr ''Source'' @ [])
      = join_spaces (split_ws (ustr ''Bon  dia.'' @ [10] @ ustr ''Source'' @ []))"
    by blast
  then have 3: "clean_transcript (ustr ''Bon  dia.'' @ [10] @ ustr ''Source'' @ [])
      = ustr ''Bon dia. Source''"
    by (simp only: eval_split)
  have 4: "clean_transcript (ustr ''Hola'' @ [10] @ ustr ''Author: A'' @ [10] @ ustr ''Text: B'')
       = ustr ''Hola''"
    by (simp add: clean_transcript_def attribution_match_def label_here_def tail_ok_def
        ci_eq_def ascii_lower_def is_space_def strip_def ustr_Nil ustr_Cons)
  from 1 2 3 4 show ?thesis by (intro conjI)
qed

text \<open>
  C4 as stated fails: a label line followed by a further line is not removed; its text
  stays in the result.
\<close>

theorem attribution_removed_at_end_counterexample:
  "clean_transcript (ustr ''Hola'' @ [10] @ ustr ''Text: A'' @ [10] @ ustr ''more'')
     = ustr ''Hola Text: A more''
   \<and> clean_transcript (ustr ''Hola'' @ [10] @ ustr ''Author: A'' @ [10] @ ustr ''more'')
     = ustr ''Hola Author: A more''"
  by (simp add: clean_transcript_def attribution_match_def label_here_def tail_ok_def
      ci_eq_def ascii_lower_def is_space_def strip_def ustr_Nil ustr_Cons)

end
